theory Spec2Isabelle
  imports Main "HOL-Library.Word"
begin

section \<open>Data model of \<open>frontend/publisher/publisher.go\<close>\<close>

text \<open>
  Go's \<open>error\<close> values are modelled by their message, \<open>[]byte\<close> by a list of bytes and
  \<open>time.Duration\<close> (an \<open>int64\<close> of nanoseconds that the publisher only passes on, never
  computes with) by an integer.
\<close>

type_synonym error = string
type_synonym bytes = "8 word list"
type_synonym Duration = int

text \<open>
  Modelled from the spec: the declaration of \<open>cfg.Config\<close> is not among the sources. These
  are the fields the publisher reads, with the types their uses require; the spec lists
  them as the maximum batch size, the maximum flush delay, the worker-pool concurrency, the
  idle-reclaim duration and the project and topic identifiers. \<open>PubsubMaxBatch\<close> is a Go
  \<open>int\<close>: it is compared with \<open>len(messages)\<close> and passed to \<open>make\<close>, no arithmetic is
  done on it.
\<close>

record Config =
  ProjectID :: string
  Topic :: string
  PubsubMaxBatch :: int
  PubsubMaxPublishDelay :: Duration
  MaxPubSubGoroutinesAmount :: int
  MaxPubSubGoroutineIdleDuration :: Duration

text \<open>
  \<open>gpubsub.Message\<close>: the publisher sets \<open>Data\<close> only, every other field stays zero.
\<close>

record Message =
  Data :: bytes

definition zero_Message :: Message where
  "zero_Message = \<lparr>Data = []\<rparr>"

text \<open>
  The inbound event, \<open>types.EventMsg\<close>. A \<open>Payload\<close> is a \<open>map[string]interface{}\<close>; the
  type of its values is left open.
\<close>

record Type =
  EventVersionField :: string
  EventNameField :: string

type_synonym 'v Payload = "string \<rightharpoonup> 'v"

record 'v Event =
  TypeField :: Type
  PayloadField :: "'v Payload"

record 'v EventMsg =
  SenderID :: string
  Event :: "'v Event"

text \<open>The \<open>zap\<close> fields and log calls the publisher makes.\<close>

datatype field =
    zapInt string int
  | zapInt64 string "64 word"
  | zapError error
  | zapString string string

datatype level = Debug | Info | Error

text \<open>
  A Go slice header: the address of its backing array (\<open>None\<close> for the nil slice), its
  length and its capacity.
\<close>

record slice =
  array :: "nat option"
  len :: nat
  cap :: nat

definition nil_slice :: slice where
  "nil_slice = \<lparr>array = None, len = 0, cap = 0\<rparr>"

text \<open>
  Everything the publisher does to the outside, in program order: log calls, resets of the
  flush timer, calls of \<open>c.Publish\<close> with the slice header and delay they receive, calls of
  \<open>topic.Publish\<close> with the message pointed to, calls of \<open>Get\<close> on a publish result (a
  result is identified by its position in \<open>results\<close>), the metrics, and \<open>wg.Done\<close>.
\<close>

datatype effect =
    Log level string "field list"
  | TimerReset Duration
  | CallPublish slice Duration
  | TopicPublish Message
  | ResultGet nat
  | CounterAdd "64 word"
  | ObserveDuration
  | WgDone

section \<open>The Publish Task (the closure of \<open>Publish\<close>)\<close>

text \<open>
  First loop of the closure, \<open>for i := range messages\<close>: publish \<open>messages[i]\<close>, count it
  in \<open>total\<close> (an \<open>int64\<close>) and append the result handle to \<open>results\<close>. The accumulator is
  \<open>(total, results, effects so far)\<close>
  (\<open>tot\<close> stands for \<open>total\<close>, which names a constant of HOL).
\<close>

fun submit_all :: "Message list \<Rightarrow> 64 word \<times> nat list \<times> effect list
    \<Rightarrow> 64 word \<times> nat list \<times> effect list" where
  "submit_all [] acc = acc"
| "submit_all (m # ms) (tot, results, tr) =
     submit_all ms (tot + 1, results @ [length results], tr @ [TopicPublish m])"

text \<open>
  Second loop, \<open>for _, r := range results\<close>: \<open>r.Get\<close> gives the server id and an error;
  an error is logged and counted in \<open>errnum\<close>. The outcome of each handle is the
  broker's: the parameter \<open>get\<close>.
\<close>

fun await_all :: "(nat \<Rightarrow> string \<times> error option) \<Rightarrow> nat list \<Rightarrow> 64 word \<times> effect list
    \<Rightarrow> 64 word \<times> effect list" where
  "await_all get [] acc = acc"
| "await_all get (r # rs) (errnum, tr) =
     (case get r of
        (ident, None) \<Rightarrow> await_all get rs (errnum, tr @ [ResultGet r])
      | (ident, Some e) \<Rightarrow>
          await_all get rs
            (errnum + 1,
             tr @ [ResultGet r, Log Error ''Error Publishing'' [zapError e, zapString ''ID'' ident]]))"

text \<open>
  The whole closure on the messages of its batch: both loops, the counter, the summary log
  line, the timer reset, \<open>wg.Done\<close> and last the deferred duration observation. The
  counter receives \<open>float64(total)\<close>; the model records \<open>total\<close> itself.
\<close>

definition Publish_task :: "(nat \<Rightarrow> string \<times> error option) \<Rightarrow> Message list \<Rightarrow> Duration
    \<Rightarrow> effect list" where
  "Publish_task get msgs maxDelay =
     (case submit_all msgs (0, [], []) of
        (tot, results, tr1) \<Rightarrow>
          (case await_all get results (0, tr1) of
             (errnum, tr2) \<Rightarrow>
               tr2 @ [CounterAdd tot,
                      Log Info ''Published ''
                        [zapInt64 ''Success'' (tot - errnum), zapInt64 ''Failures'' errnum],
                      TimerReset maxDelay,
                      WgDone,
                      ObserveDuration]))"

text \<open>Projections of an effect list used to state the properties.\<close>

fun submitted :: "effect list \<Rightarrow> Message list" where
  "submitted [] = []"
| "submitted (TopicPublish m # es) = m # submitted es"
| "submitted (e # es) = submitted es"

fun is_broker_op :: "effect \<Rightarrow> bool" where
  "is_broker_op (TopicPublish m) = True"
| "is_broker_op (ResultGet r) = True"
| "is_broker_op e = False"

fun resets :: "effect list \<Rightarrow> Duration list" where
  "resets [] = []"
| "resets (TimerReset d # es) = d # resets es"
| "resets (e # es) = resets es"

fun publish_calls :: "effect list \<Rightarrow> slice list" where
  "publish_calls [] = []"
| "publish_calls (CallPublish sl d # es) = sl # publish_calls es"
| "publish_calls (e # es) = publish_calls es"

text \<open>
  The value handed to the publish counter and the two numbers of the summary log line, read
  as the signed 64-bit integers they are.
\<close>

fun counter_adds :: "effect list \<Rightarrow> int list" where
  "counter_adds [] = []"
| "counter_adds (CounterAdd w # es) = sint w # counter_adds es"
| "counter_adds (e # es) = counter_adds es"

fun summaries :: "effect list \<Rightarrow> (int \<times> int) list" where
  "summaries [] = []"
| "summaries (Log Info msg [zapInt64 k1 ok, zapInt64 k2 bad] # es) =
     (sint ok, sint bad) # summaries es"
| "summaries (e # es) = summaries es"

text \<open>What one awaited handle adds to the effects.\<close>

definition await_one :: "(nat \<Rightarrow> string \<times> error option) \<Rightarrow> nat \<Rightarrow> effect list" where
  "await_one get r =
     (case get r of
        (ident, None) \<Rightarrow> [ResultGet r]
      | (ident, Some e) \<Rightarrow>
          [ResultGet r, Log Error ''Error Publishing'' [zapError e, zapString ''ID'' ident]])"

definition failed :: "(nat \<Rightarrow> string \<times> error option) \<Rightarrow> nat \<Rightarrow> bool" where
  "failed get r = (snd (get r) \<noteq> None)"


section \<open>Slices and their backing arrays\<close>

text \<open>
  The store maps the address of a backing array to its elements. \<open>elems\<close> reads the
  elements a slice header denotes in a store.
\<close>

type_synonym heap = "nat \<Rightarrow> Message list"

definition elems :: "heap \<Rightarrow> slice \<Rightarrow> Message list" where
  "elems h s = (case array s of None \<Rightarrow> [] | Some a \<Rightarrow> take (len s) (h a))"

text \<open>
  \<open>make([]gpubsub.Message, 0, c)\<close>: a new backing array of \<open>c\<close> zero messages at the next
  free address.
\<close>

definition make_slice :: "heap \<Rightarrow> nat \<Rightarrow> nat \<Rightarrow> slice \<times> heap \<times> nat" where
  "make_slice h nxt c =
     (\<lparr>array = Some nxt, len = 0, cap = c\<rparr>, h(nxt := replicate c zero_Message), Suc nxt)"

text \<open>
  \<open>append(s, x)\<close> when the capacity is used up (always so for the nil slice): the runtime
  allocates a new backing array, copies the elements and stores \<open>x\<close> after them. The new
  capacity is the runtime's choice; it is the parameter \<open>grow\<close>, and never less than the
  new length.
\<close>

definition growslice :: "(nat \<Rightarrow> nat) \<Rightarrow> heap \<Rightarrow> nat \<Rightarrow> slice \<Rightarrow> Message
    \<Rightarrow> slice \<times> heap \<times> nat" where
  "growslice grow h nxt s x =
     (let c = max (len s + 1) (grow (cap s)) in
        (\<lparr>array = Some nxt, len = len s + 1, cap = c\<rparr>,
         h(nxt := elems h s @ x # replicate (c - (len s + 1)) zero_Message),
         Suc nxt))"

text \<open>\<open>append(s, x)\<close>: in place while the capacity allows, else through \<open>growslice\<close>.\<close>

definition append_slice :: "(nat \<Rightarrow> nat) \<Rightarrow> heap \<Rightarrow> nat \<Rightarrow> slice \<Rightarrow> Message
    \<Rightarrow> slice \<times> heap \<times> nat" where
  "append_slice grow h nxt s x =
     (if len s < cap s then
        (case array s of
           Some a \<Rightarrow> (s\<lparr>len := len s + 1\<rparr>, h(a := (h a)[len s := x]), nxt)
         | None \<Rightarrow> growslice grow h nxt s x)
      else growslice grow h nxt s x)"

section \<open>The flush timer\<close>

text \<open>
  A \<open>time.Timer\<close>: whether a deadline is pending, the duration it was last armed with, and
  whether a fire is waiting in its channel \<open>C\<close> (of capacity one). \<open>Reset\<close> arms it and
  leaves the channel alone.
\<close>

record Timer =
  active :: bool
  duration :: Duration
  C_full :: bool

definition NewTimer :: "Duration \<Rightarrow> Timer" where
  "NewTimer d = \<lparr>active = True, duration = d, C_full = False\<rparr>"

definition Reset :: "Duration \<Rightarrow> Timer \<Rightarrow> Timer" where
  "Reset d tm = tm\<lparr>active := True, duration := d\<rparr>"

section \<open>The Publisher and its Dispatch Loop (\<open>Run\<close>)\<close>

text \<open>
  The \<open>Publisher\<close> struct. The channel \<open>bqEvents\<close> is the sequence of events the loop is
  run on and the logger is the effect list, so neither is a field here. \<open>gp\<close> is whatever
  \<open>pool.NewGoPool\<close> returns, \<open>topic\<close> the topic handle (\<open>None\<close> for a nil pointer) and
  \<open>wg\<close> the counter of the wait group. The field \<open>id\<close> is named \<open>id_p\<close>. The fields
  \<open>gpubsubClient\<close> and \<open>client\<close> are never assigned or read.
\<close>

record ('gp, 'tp) Publisher =
  gp :: 'gp
  config :: Config
  topic :: "'tp option"
  wg :: int
  id_p :: int

text \<open>
  The closure handed to the worker pool captures the slice header it was called with and
  the delay (and the one timer there is).
\<close>

record task =
  task_messages :: slice
  task_maxDelay :: Duration

text \<open>
  The state of a running publisher: the local variable \<open>messages\<close> of \<open>Run\<close>, the store
  of backing arrays with its next free address, the timer \<open>t\<close>, the closures the pool
  has taken and that have not finished, the counter of the wait group and the effects so far.
\<close>

record state =
  messages :: slice
  mem :: heap
  next_addr :: nat
  timer :: Timer
  pool :: "task list"
  wg_counter :: int
  out :: "effect list"

text \<open>
  \<open>c.Publish(messages, t, maxDelay)\<close>: \<open>wg.Add(1)\<close>, then the closure is offered to the
  pool with \<open>c.gp.Go\<close>, whose result is discarded. The pool is an external package with a
  limit of workers (\<open>MaxPubSubGoroutinesAmount\<close>); whether it takes a closure depends on
  that limit and on the workers that are free at that moment. It is the parameter
  \<open>accepted\<close>: \<open>accepted n\<close> tells whether the pool takes the closure of the \<open>n\<close>-th call
  of \<open>c.Publish\<close> of the run, counted from \<open>0\<close>. A closure the pool does not take is
  dropped: it never runs.
\<close>

definition Publish :: "(nat \<Rightarrow> bool) \<Rightarrow> slice \<Rightarrow> Duration \<Rightarrow> state \<Rightarrow> state" where
  "Publish accepted msgs maxDelay s =
     s\<lparr>wg_counter := wg_counter s + 1,
       pool := (if accepted (length (publish_calls (out s)))
                then pool s @ [\<lparr>task_messages = msgs, task_maxDelay = maxDelay\<rparr>]
                else pool s),
       out := out s @ [CallPublish msgs maxDelay]\<rparr>"

text \<open>
  The closure running to its end: it reads its batch from the store, does what
  \<open>Publish_task\<close> says, resets the timer and signals the wait group. The closure shares
  with the loop only the backing array of its batch, which it reads, and the timer, which
  it resets as its last action but one; its run is one action of the model, placed where it
  completes.
\<close>

definition run_task :: "(nat \<Rightarrow> string \<times> error option) \<Rightarrow> task \<Rightarrow> state \<Rightarrow> state" where
  "run_task get tk s =
     s\<lparr>out := out s @ Publish_task get (elems (mem s) (task_messages tk)) (task_maxDelay tk),
       timer := Reset (task_maxDelay tk) (timer s),
       wg_counter := wg_counter s - 1\<rparr>"

text \<open>
  The start of \<open>Run\<close>, up to the loop. \<open>make\<close> panics on a negative capacity (a capacity
  too large for the memory is not modelled).
\<close>

definition Run_init :: "('gp, 'tp) Publisher \<Rightarrow> error + state" where
  "Run_init c =
     (if PubsubMaxBatch (config c) < 0 then Inl ''makeslice: cap out of range''
      else
        (case make_slice (\<lambda>a. []) 0 (nat (PubsubMaxBatch (config c))) of
           (sl, h, nxt) \<Rightarrow>
             Inr \<lparr>messages = sl, mem = h, next_addr = nxt,
                  timer = NewTimer (PubsubMaxPublishDelay (config c)),
                  pool = [], wg_counter = wg c,
                  out = [Log Debug ''Starting Run'' []]\<rparr>))"

text \<open>The branch \<open>case <-t.C\<close> of the loop: the fire is taken out of the channel.\<close>

definition on_timer :: "(nat \<Rightarrow> bool) \<Rightarrow> ('gp, 'tp) Publisher \<Rightarrow> state \<Rightarrow> state" where
  "on_timer accepted c s =
     (let s1 = s\<lparr>timer := (timer s)\<lparr>C_full := False\<rparr>\<rparr> in
        if len (messages s1) = 0 then
          s1\<lparr>out := out s1 @ [Log Debug ''skipping publish due to no messages'' [],
                               TimerReset (PubsubMaxPublishDelay (config c))],
             timer := Reset (PubsubMaxPublishDelay (config c)) (timer s1)\<rparr>
        else
          (Publish accepted (messages s1) (PubsubMaxPublishDelay (config c))
             (s1\<lparr>out := out s1 @
                  [Log Debug ''Calling publish due to time''
                     [zapInt ''Number of message'' (int (len (messages s1))),
                      zapInt ''Aggrigator ID'' (id_p c)]]\<rparr>))
          \<lparr>messages := nil_slice\<rparr>)"

text \<open>
  The branch \<open>case event := <-c.bqEvents\<close>. \<open>ffjson.Marshal\<close> is the parameter
  \<open>marshal\<close>.
\<close>

definition on_event :: "(nat \<Rightarrow> bool) \<Rightarrow> (nat \<Rightarrow> nat) \<Rightarrow> ('ev \<Rightarrow> error + bytes)
    \<Rightarrow> ('gp, 'tp) Publisher
    \<Rightarrow> 'ev \<Rightarrow> state \<Rightarrow> state" where
  "on_event accepted grow marshal c event s =
     (case marshal event of
        Inl err \<Rightarrow> s\<lparr>out := out s @ [Log Error ''Error Marshaling event'' [zapError err]]\<rparr>
      | Inr buf \<Rightarrow>
          (case append_slice grow (mem s) (next_addr s) (messages s) \<lparr>Data = buf\<rparr> of
             (sl, h, nxt) \<Rightarrow>
               (let s1 = s\<lparr>messages := sl, mem := h, next_addr := nxt\<rparr> in
                  if int (len (messages s1)) = PubsubMaxBatch (config c) then
                    (Publish accepted (messages s1) (PubsubMaxPublishDelay (config c))
                       (s1\<lparr>out := out s1 @
                            [Log Debug ''Calling publish due to capacity ''
                               [zapInt ''Number of message'' (int (len (messages s1))),
                                zapInt ''Aggrigator ID'' (id_p c)]]\<rparr>))
                    \<lparr>messages := nil_slice\<rparr>
                  else s1)))"

text \<open>
  What can happen next to a running publisher: the loop receives an event, the loop
  receives the timer's fire (possible when one waits in \<open>C\<close>), the timer reaches its
  deadline (possible when it is armed; the fire goes to \<open>C\<close>), or the \<open>k\<close>-th closure in
  the pool runs to its end with the broker's outcomes \<open>get\<close>. \<open>step\<close> is \<open>None\<close> when
  the action is not possible in the state.
\<close>

datatype 'ev action =
    Recv 'ev
  | TimerC
  | Expire
  | TaskDone nat "nat \<Rightarrow> string \<times> error option"

fun step :: "(nat \<Rightarrow> bool) \<Rightarrow> (nat \<Rightarrow> nat) \<Rightarrow> ('ev \<Rightarrow> error + bytes)
    \<Rightarrow> ('gp, 'tp) Publisher
    \<Rightarrow> 'ev action \<Rightarrow> state \<Rightarrow> state option" where
  "step accepted grow marshal c (Recv event) s = Some (on_event accepted grow marshal c event s)"
| "step accepted grow marshal c TimerC s =
     (if C_full (timer s) then Some (on_timer accepted c s) else None)"
| "step accepted grow marshal c Expire s =
     (if active (timer s)
      then Some (s\<lparr>timer := (timer s)\<lparr>active := False, C_full := True\<rparr>\<rparr>)
      else None)"
| "step accepted grow marshal c (TaskDone k get) s =
     (if k < length (pool s)
      then Some (run_task get (pool s ! k) (s\<lparr>pool := take k (pool s) @ drop (Suc k) (pool s)\<rparr>))
      else None)"

fun exec :: "(nat \<Rightarrow> bool) \<Rightarrow> (nat \<Rightarrow> nat) \<Rightarrow> ('ev \<Rightarrow> error + bytes)
    \<Rightarrow> ('gp, 'tp) Publisher
    \<Rightarrow> 'ev action list \<Rightarrow> state \<Rightarrow> state option" where
  "exec accepted grow marshal c [] s = Some s"
| "exec accepted grow marshal c (a # as) s =
     (case step accepted grow marshal c a s of
        None \<Rightarrow> None
      | Some s' \<Rightarrow> exec accepted grow marshal c as s')"

text \<open>
  Views of a state and of a schedule: the messages of the open batch, the batches of the
  publish attempts so far (each call of \<open>c.Publish\<close>, read through the store), the
  events a schedule delivers and the messages of those that serialise.
\<close>

definition open_batch :: "state \<Rightarrow> Message list" where
  "open_batch s = elems (mem s) (messages s)"

definition attempts :: "state \<Rightarrow> Message list list" where
  "attempts s = map (elems (mem s)) (publish_calls (out s))"

fun received :: "'ev action list \<Rightarrow> 'ev list" where
  "received [] = []"
| "received (Recv event # as) = event # received as"
| "received (a # as) = received as"

fun serialized :: "('ev \<Rightarrow> error + bytes) \<Rightarrow> 'ev list \<Rightarrow> Message list" where
  "serialized marshal [] = []"
| "serialized marshal (event # evs) =
     (case marshal event of
        Inl err \<Rightarrow> serialized marshal evs
      | Inr buf \<Rightarrow> \<lparr>Data = buf\<rparr> # serialized marshal evs)"

text \<open>
  \<open>Run\<close> on a schedule: the panic of \<open>make\<close> is \<open>Inl\<close>, a schedule that cannot happen
  is \<open>Inr None\<close>, and otherwise the state after the schedule's last action. The loop of
  \<open>Run\<close> never ends by itself; the schedules are its finite prefixes.
\<close>

definition Run :: "(nat \<Rightarrow> bool) \<Rightarrow> (nat \<Rightarrow> nat) \<Rightarrow> ('ev \<Rightarrow> error + bytes)
    \<Rightarrow> ('gp, 'tp) Publisher
    \<Rightarrow> 'ev action list \<Rightarrow> error + state option" where
  "Run accepted grow marshal c sched =
     (case Run_init c of
        Inl e \<Rightarrow> Inl e
      | Inr s0 \<Rightarrow> Inr (exec accepted grow marshal c sched s0))"

text \<open>
  Well-formedness of a slice in a store: the nil slice is empty; any other slice points to
  an allocated array that is at least as long as the capacity, which bounds the length.
\<close>

definition slice_ok :: "heap \<Rightarrow> nat \<Rightarrow> slice \<Rightarrow> bool" where
  "slice_ok h nxt sl =
     (case array sl of
        None \<Rightarrow> len sl = 0 \<and> cap sl = 0
      | Some a \<Rightarrow> a < nxt \<and> len sl \<le> cap sl \<and> cap sl \<le> length (h a))"

text \<open>
  What holds of every slice that was handed to \<open>c.Publish\<close>: it is not empty, it is well
  formed, and its backing array is not the one of the open batch.
\<close>

definition handed_ok :: "state \<Rightarrow> slice \<Rightarrow> bool" where
  "handed_ok s sl =
     (0 < len sl \<and> slice_ok (mem s) (next_addr s) sl \<and> array sl \<noteq> array (messages s))"

text \<open>The invariant of the running publisher.\<close>

definition run_inv :: "(nat \<Rightarrow> bool) \<Rightarrow> ('gp, 'tp) Publisher \<Rightarrow> state \<Rightarrow> bool" where
  "run_inv accepted c s =
     (slice_ok (mem s) (next_addr s) (messages s) \<and>
      (\<forall>sl \<in> set (publish_calls (out s)). handed_ok s sl) \<and>
      (\<forall>tk \<in> set (pool s). task_messages tk \<in> set (publish_calls (out s)) \<and>
         task_maxDelay tk = PubsubMaxPublishDelay (config c)) \<and>
      ((\<forall>n < length (publish_calls (out s)). accepted n) \<longrightarrow>
         active (timer s) \<or> C_full (timer s) \<or> pool s \<noteq> []) \<and>
      (0 < PubsubMaxBatch (config c) \<longrightarrow> int (len (messages s)) < PubsubMaxBatch (config c)))"

section \<open>Construction (\<open>NewPublisher\<close>)\<close>

text \<open>
  A topic handle as \<open>client.Topic(topic)\<close> makes it: a reference to a topic name through
  a client.
\<close>

datatype 'cl TopicRef = TopicRef 'cl string

text \<open>
  \<open>createTopicIfNotExists\<close>. The Pub/Sub client library is a parameter:
  \<open>NewClient\<close> gives a client or an error, \<open>Exists\<close> and \<open>CreateTopic\<close> return the
  pairs the Go functions return, which the code hands on as they are. The result is the
  returned pair and the log lines written.
\<close>

definition createTopicIfNotExists :: "(string \<Rightarrow> error + 'cl)
    \<Rightarrow> ('cl TopicRef \<Rightarrow> bool \<times> error option)
    \<Rightarrow> ('cl \<Rightarrow> string \<Rightarrow> 'cl TopicRef option \<times> error option)
    \<Rightarrow> string \<Rightarrow> string \<Rightarrow> ('cl TopicRef option \<times> error option) \<times> effect list" where
  "createTopicIfNotExists NewClient Exists CreateTopic projectid topic_name =
     (case NewClient projectid of
        Inl err \<Rightarrow> ((None, Some err), [Log Error ''Pub/Sub client creation error'' [zapError err]])
      | Inr client \<Rightarrow>
          (let tp = TopicRef client topic_name in
             (case Exists tp of
                (ok, Some err) \<Rightarrow>
                  ((Some tp, Some err), [Log Error ''Pub/Sub topic exists error'' [zapError err]])
              | (ok, None) \<Rightarrow>
                  if ok then ((Some tp, None), [Log Info ''Topic exists we are all good!'' []])
                  else
                    (case CreateTopic client topic_name of
                       (tp', Some err) \<Rightarrow> ((tp', Some err), [])
                     | (tp', None) \<Rightarrow> ((tp', None), [Log Info ''New topic created'' []])))))"

text \<open>
  \<open>NewPublisher\<close> returns a pointer to the struct (\<open>Some\<close>, a nil pointer would be
  \<open>None\<close>) and the error of \<open>createTopicIfNotExists\<close>, with the log lines written.
  \<open>pool.NewGoPool\<close> is a parameter.
\<close>

definition NewPublisher :: "(int \<Rightarrow> Duration \<Rightarrow> 'gp) \<Rightarrow> (string \<Rightarrow> error + 'cl)
    \<Rightarrow> ('cl TopicRef \<Rightarrow> bool \<times> error option)
    \<Rightarrow> ('cl \<Rightarrow> string \<Rightarrow> 'cl TopicRef option \<times> error option)
    \<Rightarrow> Config \<Rightarrow> int
    \<Rightarrow> (('gp, 'cl TopicRef) Publisher option \<times> error option) \<times> effect list" where
  "NewPublisher NewGoPool NewClient Exists CreateTopic cfg ident =
     (let pl = NewGoPool (MaxPubSubGoroutinesAmount cfg) (MaxPubSubGoroutineIdleDuration cfg) in
        (case createTopicIfNotExists NewClient Exists CreateTopic (ProjectID cfg) (Topic cfg) of
           ((tp, err), logs) \<Rightarrow>
             (let p = \<lparr>gp = pl, config = cfg, topic = tp, wg = 0, id_p = ident\<rparr> in
                ((Some p, err),
                 [Log Debug ''Creating a new publisher'' [zapInt ''id'' ident]] @ logs @
                 [Log Debug ''Done with topic'' [], Log Debug ''Done with publisher struct!'' []] @
                 (case err of
                    Some e \<Rightarrow> [Log Error ''Error creating topic'' [zapError e]]
                  | None \<Rightarrow> []) @
                 [Log Debug ''Done with NewPublisher'' []]))))"

section \<open>A concrete publisher\<close>

text \<open>
  Events are told apart by their sender. The serialiser of the examples gives the bytes of
  the sender and fails on sender \<open>B\<close>; the runtime of the examples doubles a capacity;
  the pool of the examples takes every closure (\<open>ex_accept\<close>) or none (\<open>ex_refuse\<close>).
\<close>

definition ex_event :: "string \<Rightarrow> string EventMsg" where
  "ex_event sender =
     \<lparr>SenderID = sender,
      Event = \<lparr>TypeField = \<lparr>EventVersionField = ''1'', EventNameField = ''click''\<rparr>,
               PayloadField = [''screen'' \<mapsto> ''welcome'']\<rparr>\<rparr>"

definition ex_marshal :: "string EventMsg \<Rightarrow> error + bytes" where
  "ex_marshal ev =
     (if SenderID ev = ''B'' then Inl ''unsupported value''
      else Inr (map of_char (SenderID ev)))"

definition ex_config :: "int \<Rightarrow> Config" where
  "ex_config n =
     \<lparr>ProjectID = ''project'', Topic = ''events'', PubsubMaxBatch = n,
      PubsubMaxPublishDelay = 100, MaxPubSubGoroutinesAmount = 4,
      MaxPubSubGoroutineIdleDuration = 10\<rparr>"

definition ex_publisher :: "int \<Rightarrow> (unit, unit) Publisher" where
  "ex_publisher n = \<lparr>gp = (), config = ex_config n, topic = Some (), wg = 0, id_p = 1\<rparr>"

definition ex_grow :: "nat \<Rightarrow> nat" where
  "ex_grow n = 2 * n"

definition ex_accept :: "nat \<Rightarrow> bool" where
  "ex_accept n = True"

definition ex_refuse :: "nat \<Rightarrow> bool" where
  "ex_refuse n = False"

definition ex_get :: "nat \<Rightarrow> string \<times> error option" where
  "ex_get r = (if r = 1 then (''m1'', Some ''deadline exceeded'') else (''ok'', None))"

section \<open>Properties of the Publish Task\<close>

lemma submit_all_eq:
  "submit_all ms (tot, results, tr) =
     (tot + of_nat (length ms),
      results @ [length results ..< length results + length ms],
      tr @ map TopicPublish ms)"
proof (induction ms arbitrary: tot results tr)
  case Nil
  show ?case by simp
next
  case (Cons m ms)
  have "[length results ..< length results + Suc (length ms)] =
        length results # [Suc (length results) ..< Suc (length results) + length ms]"
    by (subst upt_rec) simp
  then show ?case
    by (simp add: Cons.IH algebra_simps)
qed

lemma await_all_eq:
  "await_all get rs (errnum, tr) =
     (errnum + of_nat (length (filter (failed get) rs)),
      tr @ concat (map (await_one get) rs))"
proof (induction rs arbitrary: errnum tr)
  case Nil
  show ?case by simp
next
  case (Cons r rs)
  show ?case
    by (cases "get r") (auto simp: Cons.IH await_one_def failed_def algebra_simps)
qed

lemma Publish_task_eq:
  "Publish_task get msgs d =
     map TopicPublish msgs @ concat (map (await_one get) [0 ..< length msgs]) @
     [CounterAdd (of_nat (length msgs)),
      Log Info ''Published ''
        [zapInt64 ''Success''
           (of_nat (length msgs) - of_nat (length (filter (failed get) [0 ..< length msgs]))),
         zapInt64 ''Failures'' (of_nat (length (filter (failed get) [0 ..< length msgs])))],
      TimerReset d, WgDone, ObserveDuration]"
  by (simp add: Publish_task_def submit_all_eq await_all_eq)

lemma filter_single:
  assumes "i < K" "P i" "\<forall>j<K. j \<noteq> i \<longrightarrow> \<not> P j"
  shows "filter P [0..<K] = [i]"
proof -
  have "[0..<K] = [0..<i] @ i # [Suc i..<K]"
    using assms(1) by (metis le_add_diff_inverse less_imp_le_nat upt_add_eq_append upt_conv_Cons zero_le)
  moreover have "filter P [0..<i] = []" using assms by (auto simp: filter_empty_conv)
  moreover have "filter P [Suc i..<K] = []" using assms by (auto simp: filter_empty_conv)
  ultimately show ?thesis using assms(2) by simp
qed

lemma sint_of_nat_64: "n < 2 ^ 63 \<Longrightarrow> sint (of_nat n :: 64 word) = int n"
  by (simp add: signed_of_nat signed_take_bit_int_eq_self)

lemma submitted_append: "submitted (xs @ ys) = submitted xs @ submitted ys"
  by (induction xs rule: submitted.induct) auto

lemma submitted_map: "submitted (map TopicPublish ms) = ms"
  by (induction ms) auto

lemma submitted_await: "submitted (concat (map (await_one get) rs)) = []"
  by (induction rs) (auto simp: await_one_def submitted_append split: prod.splits option.splits)

lemma counter_adds_append: "counter_adds (xs @ ys) = counter_adds xs @ counter_adds ys"
  by (induction xs rule: counter_adds.induct) auto

lemma counter_adds_map: "counter_adds (map TopicPublish ms) = []"
  by (induction ms) auto

lemma counter_adds_await: "counter_adds (concat (map (await_one get) rs)) = []"
  by (induction rs) (auto simp: await_one_def counter_adds_append split: prod.splits option.splits)

lemma summaries_append: "summaries (xs @ ys) = summaries xs @ summaries ys"
  by (induction xs rule: summaries.induct) auto

lemma summaries_map: "summaries (map TopicPublish ms) = []"
  by (induction ms) auto

lemma summaries_await: "summaries (concat (map (await_one get) rs)) = []"
  by (induction rs) (auto simp: await_one_def summaries_append split: prod.splits option.splits)

lemma broker_ops_await: "filter is_broker_op (concat (map (await_one get) rs)) = map ResultGet rs"
  by (induction rs) (auto simp: await_one_def split: prod.splits option.splits)

lemma broker_ops_map: "filter is_broker_op (map TopicPublish ms) = map TopicPublish ms"
  by (induction ms) auto

text \<open>
  Claim C8. The Publish Task calls \<open>topic.Publish\<close> for the messages of its batch in
  batch order, keeping each result handle, and waits for no result before every message is
  submitted; then it calls \<open>Get\<close> once on each handle, in the order of submission. As the
  calls to the broker in the task's effects: first one \<open>TopicPublish\<close> per message, then
  one \<open>ResultGet\<close> per handle \<open>0, 1, ...\<close>.
\<close>

theorem Publish_task_submits_then_awaits:
  "filter is_broker_op (Publish_task get msgs d) =
     map TopicPublish msgs @ map ResultGet [0 ..< length msgs]"
  by (simp add: Publish_task_eq broker_ops_await broker_ops_map)

text \<open>
  Claim C3. A Publish Task gets a batch of \<open>K\<close> messages (a Go slice: fewer than
  \<open>2^63\<close> elements); the result of message \<open>i\<close> is an error and every other result is
  a success. Then all \<open>K\<close> messages are submitted to the broker, the publish counter is
  increased by \<open>K\<close>, and the summary line reports \<open>K - 1\<close> successes and one failure.
\<close>

theorem Publish_task_one_failure:
  assumes "i < length msgs"
    and "failed get i"
    and "\<forall>j < length msgs. j \<noteq> i \<longrightarrow> \<not> failed get j"
    and "length msgs < 2 ^ 63"
  shows "submitted (Publish_task get msgs d) = msgs \<and>
         counter_adds (Publish_task get msgs d) = [int (length msgs)] \<and>
         summaries (Publish_task get msgs d) = [(int (length msgs) - 1, 1)]"
proof -
  let ?K = "length msgs"
  have f: "filter (failed get) [0 ..< ?K] = [i]"
    using assms(1-3) by (rule filter_single)
  have k: "sint (of_nat ?K :: 64 word) = int ?K"
    using assms(4) by (rule sint_of_nat_64)
  obtain n where n: "?K = Suc n"
    using assms(1) by (cases ?K) auto
  have "(of_nat ?K :: 64 word) - 1 = of_nat n"
    by (simp add: n)
  moreover have "n < 2 ^ 63"
    using assms(4) n by simp
  ultimately have k1: "sint ((of_nat ?K :: 64 word) - 1) = int ?K - 1"
    by (simp add: sint_of_nat_64 n)
  show ?thesis
    by (simp add: Publish_task_eq f k k1 submitted_append submitted_map submitted_await
        counter_adds_append counter_adds_map counter_adds_await
        summaries_append summaries_map summaries_await)
qed

text \<open>A batch of three messages whose second publish fails.\<close>

theorem Publish_task_one_failure_witness:
  "submitted (Publish_task (\<lambda>r. if r = 1 then (''m1'', Some ''deadline exceeded'') else (''ok'', None))
       [\<lparr>Data = [1]\<rparr>, \<lparr>Data = [2]\<rparr>, \<lparr>Data = [3]\<rparr>] 100)
     = [\<lparr>Data = [1]\<rparr>, \<lparr>Data = [2]\<rparr>, \<lparr>Data = [3]\<rparr>] \<and>
   counter_adds (Publish_task (\<lambda>r. if r = 1 then (''m1'', Some ''deadline exceeded'') else (''ok'', None))
       [\<lparr>Data = [1]\<rparr>, \<lparr>Data = [2]\<rparr>, \<lparr>Data = [3]\<rparr>] 100) = [3] \<and>
   summaries (Publish_task (\<lambda>r. if r = 1 then (''m1'', Some ''deadline exceeded'') else (''ok'', None))
       [\<lparr>Data = [1]\<rparr>, \<lparr>Data = [2]\<rparr>, \<lparr>Data = [3]\<rparr>] 100) = [(2, 1)]"
  using Publish_task_one_failure [of 1 "[\<lparr>Data = [1]\<rparr>, \<lparr>Data = [2]\<rparr>, \<lparr>Data = [3]\<rparr>]"
      "\<lambda>r. if r = 1 then (''m1'', Some ''deadline exceeded'') else (''ok'', None)" 100]
  by (simp add: failed_def)

section \<open>Slices, the store and the invariant of the loop\<close>

text \<open>The definitions that evaluate a run of the concrete publisher.\<close>

lemmas run_eval = Run_def Run_init_def make_slice_def NewTimer_def Reset_def on_event_def
  on_timer_def append_slice_def growslice_def Publish_def run_task_def Let_def zero_Message_def
  nil_slice_def elems_def open_batch_def attempts_def

lemmas ex_defs = ex_publisher_def ex_config_def ex_marshal_def ex_event_def ex_grow_def
  ex_accept_def ex_refuse_def

lemma slice_ok_nil: "slice_ok h nxt nil_slice"
  by (simp add: slice_ok_def nil_slice_def)

lemma elems_nil: "elems h nil_slice = []"
  by (simp add: elems_def nil_slice_def)

lemma length_elems: "slice_ok h nxt sl \<Longrightarrow> length (elems h sl) = len sl"
  by (auto simp: slice_ok_def elems_def split: option.splits)

lemma growslice_props:
  assumes "slice_ok h nxt sl" and "growslice grow h nxt sl x = (sl', h', nxt')"
  shows "elems h' sl' = elems h sl @ [x]"
    and "slice_ok h' nxt' sl'"
    and "len sl' = Suc (len sl)"
    and "array sl' = Some nxt"
    and "nxt' = Suc nxt"
    and "\<forall>a. a \<noteq> nxt \<longrightarrow> h' a = h a"
  using assms length_elems [OF assms(1)]
  by (auto simp: growslice_def Let_def elems_def slice_ok_def split: option.splits)

lemma append_slice_cases:
  assumes "slice_ok h nxt sl" and "append_slice grow h nxt sl x = (sl', h', nxt')"
  obtains (in_place) a where "array sl = Some a" and "len sl < cap sl"
      and "sl' = sl\<lparr>len := len sl + 1\<rparr>" and "h' = h(a := (h a)[len sl := x])" and "nxt' = nxt"
    | (grown) "growslice grow h nxt sl x = (sl', h', nxt')"
  using assms by (auto simp: append_slice_def split: if_splits option.splits)

lemma append_slice_props:
  assumes "slice_ok h nxt sl" and "append_slice grow h nxt sl x = (sl', h', nxt')"
  shows "elems h' sl' = elems h sl @ [x]"
    and "slice_ok h' nxt' sl'"
    and "len sl' = Suc (len sl)"
    and "array sl' = array sl \<or> array sl' = Some nxt"
    and "nxt \<le> nxt'"
    and "\<forall>a. a < nxt \<and> Some a \<noteq> array sl \<longrightarrow> h' a = h a"
proof -
  from assms have "elems h' sl' = elems h sl @ [x] \<and> slice_ok h' nxt' sl' \<and>
      len sl' = Suc (len sl) \<and> (array sl' = array sl \<or> array sl' = Some nxt) \<and> nxt \<le> nxt' \<and>
      (\<forall>a. a < nxt \<and> Some a \<noteq> array sl \<longrightarrow> h' a = h a)"
  proof (cases rule: append_slice_cases)
    case (in_place a)
    with assms(1) show ?thesis
      by (auto simp: elems_def slice_ok_def take_Suc_conv_app_nth)
  next
    case grown
    from growslice_props [OF assms(1) grown] show ?thesis
      by simp
  qed
  then show "elems h' sl' = elems h sl @ [x]"
    and "slice_ok h' nxt' sl'"
    and "len sl' = Suc (len sl)"
    and "array sl' = array sl \<or> array sl' = Some nxt"
    and "nxt \<le> nxt'"
    and "\<forall>a. a < nxt \<and> Some a \<noteq> array sl \<longrightarrow> h' a = h a"
    by blast+
qed

lemma slice_ok_frame:
  assumes "slice_ok h nxt sl" and "nxt \<le> nxt'"
    and "\<forall>a. Some a = array sl \<longrightarrow> h' a = h a"
  shows "slice_ok h' nxt' sl" and "elems h' sl = elems h sl"
  using assms by (auto simp: slice_ok_def elems_def split: option.splits)


lemma publish_calls_append: "publish_calls (xs @ ys) = publish_calls xs @ publish_calls ys"
  by (induction xs rule: publish_calls.induct) auto

lemma publish_calls_map: "publish_calls (map TopicPublish ms) = []"
  by (induction ms) auto

lemma publish_calls_await: "publish_calls (concat (map (await_one get) rs)) = []"
  by (induction rs) (auto simp: await_one_def publish_calls_append split: prod.splits option.splits)

lemma publish_calls_task: "publish_calls (Publish_task get msgs d) = []"
  by (simp add: Publish_task_eq publish_calls_append publish_calls_map publish_calls_await)

lemma handed_array:
  "handed_ok s sl \<Longrightarrow> \<exists>a. array sl = Some a \<and> a < next_addr s"
  by (auto simp: handed_ok_def slice_ok_def split: option.splits)

lemma Run_init_inv:
  assumes "Run_init c = Inr s0"
  shows "run_inv accepted c s0"
  using assms
  by (auto simp: Run_init_def make_slice_def run_inv_def slice_ok_def NewTimer_def split: if_splits)

lemma Run_init_views:
  assumes "Run_init c = Inr s0"
  shows "open_batch s0 = []" and "attempts s0 = []" and "pool s0 = []"
    and "timer s0 = NewTimer (PubsubMaxPublishDelay (config c))"
  using assms
  by (auto simp: Run_init_def make_slice_def open_batch_def attempts_def elems_def split: if_splits)

text \<open>The event branch when serialisation fails.\<close>

lemma on_event_Inl:
  "marshal event = Inl err \<Longrightarrow>
   on_event accepted grow marshal c event s =
     s\<lparr>out := out s @ [Log Error ''Error Marshaling event'' [zapError err]]\<rparr>"
  by (simp add: on_event_def)

lemma inv_out_log:
  "run_inv accepted c s \<Longrightarrow> run_inv accepted c (s\<lparr>out := out s @ [Log l m fs]\<rparr>)"
  by (simp add: run_inv_def handed_ok_def publish_calls_append)

text \<open>The event branch when serialisation succeeds, in two cases.\<close>

lemma on_event_Inr:
  assumes "marshal event = Inr buf"
    and "append_slice grow (mem s) (next_addr s) (messages s) \<lparr>Data = buf\<rparr> = (sl, h, nxt)"
  shows "int (len sl) = PubsubMaxBatch (config c) \<Longrightarrow>
         on_event accepted grow marshal c event s =
           s\<lparr>messages := nil_slice, mem := h, next_addr := nxt,
             wg_counter := wg_counter s + 1,
             pool := (if accepted (length (publish_calls (out s)))
                      then pool s @ [\<lparr>task_messages = sl,
                                       task_maxDelay = PubsubMaxPublishDelay (config c)\<rparr>]
                      else pool s),
             out := out s @
               [Log Debug ''Calling publish due to capacity ''
                  [zapInt ''Number of message'' (int (len sl)), zapInt ''Aggrigator ID'' (id_p c)],
                CallPublish sl (PubsubMaxPublishDelay (config c))]\<rparr>"
    and "int (len sl) \<noteq> PubsubMaxBatch (config c) \<Longrightarrow>
         on_event accepted grow marshal c event s = s\<lparr>messages := sl, mem := h, next_addr := nxt\<rparr>"
  using assms by (simp_all add: on_event_def Publish_def Let_def publish_calls_append)


lemma handed_frame:
  assumes "handed_ok s sl2"
    and "next_addr s \<le> nxt"
    and "\<forall>a. a < next_addr s \<and> Some a \<noteq> array (messages s) \<longrightarrow> h a = mem s a"
    and "array sl = array (messages s) \<or> array sl = Some (next_addr s)"
  shows "slice_ok h nxt sl2" and "elems h sl2 = elems (mem s) sl2"
    and "array sl2 \<noteq> array sl" and "array sl2 \<noteq> None"
    and "\<forall>a. array sl2 = Some a \<longrightarrow> h a = mem s a"
proof -
  from assms(1) obtain a where a: "array sl2 = Some a" "a < next_addr s"
    using handed_array by blast
  from assms(1) a have ne: "Some a \<noteq> array (messages s)"
    by (auto simp: handed_ok_def)
  with a assms(3) have h: "h a = mem s a"
    by simp
  from assms(1) have ok: "slice_ok (mem s) (next_addr s) sl2"
    by (simp add: handed_ok_def)
  with a h assms(2) show "slice_ok h nxt sl2"
    by (auto simp: slice_ok_def)
  from a h show "elems h sl2 = elems (mem s) sl2"
    by (simp add: elems_def)
  from a ne assms(4) show "array sl2 \<noteq> array sl"
    by auto
  from a show "array sl2 \<noteq> None"
    by simp
  from a h show "\<forall>a. array sl2 = Some a \<longrightarrow> h a = mem s a"
    by simp
qed

lemma on_event_flush:
  assumes i: "run_inv accepted c s" and m: "marshal event = Inr buf"
    and full: "int (length (open_batch s)) + 1 = PubsubMaxBatch (config c)"
  shows "run_inv accepted c (on_event accepted grow marshal c event s)"
    and "open_batch (on_event accepted grow marshal c event s) = []"
    and "attempts (on_event accepted grow marshal c event s) =
           attempts s @ [open_batch s @ [\<lparr>Data = buf\<rparr>]]"
    and "\<forall>sl2 \<in> set (publish_calls (out s)). \<forall>a. array sl2 = Some a \<longrightarrow>
           mem (on_event accepted grow marshal c event s) a = mem s a"
proof -
  let ?s' = "on_event accepted grow marshal c event s"
  obtain sl h nxt where ap:
    "append_slice grow (mem s) (next_addr s) (messages s) \<lparr>Data = buf\<rparr> = (sl, h, nxt)"
    by (cases "append_slice grow (mem s) (next_addr s) (messages s) \<lparr>Data = buf\<rparr>") auto
  from i have ok: "slice_ok (mem s) (next_addr s) (messages s)"
    by (simp add: run_inv_def)
  note P = append_slice_props [OF ok ap]
  have lenm: "length (open_batch s) = len (messages s)"
    using ok by (simp add: open_batch_def length_elems)
  with full P(3) have eq: "int (len sl) = PubsubMaxBatch (config c)"
    by simp
  have s': "?s' = s\<lparr>messages := nil_slice, mem := h, next_addr := nxt,
             wg_counter := wg_counter s + 1,
             pool := (if accepted (length (publish_calls (out s)))
                      then pool s @ [\<lparr>task_messages = sl,
                                       task_maxDelay = PubsubMaxPublishDelay (config c)\<rparr>]
                      else pool s),
             out := out s @
               [Log Debug ''Calling publish due to capacity ''
                  [zapInt ''Number of message'' (int (len sl)), zapInt ''Aggrigator ID'' (id_p c)],
                CallPublish sl (PubsubMaxPublishDelay (config c))]\<rparr>"
    using m ap eq by (rule on_event_Inr(1))
  have old: "slice_ok h nxt sl2 \<and> elems h sl2 = elems (mem s) sl2 \<and> array sl2 \<noteq> None \<and> 0 < len sl2 \<and>
      (\<forall>a. array sl2 = Some a \<longrightarrow> h a = mem s a)"
    if "sl2 \<in> set (publish_calls (out s))" for sl2
  proof -
    from i that have hk: "handed_ok s sl2"
      by (simp add: run_inv_def)
    from handed_frame [OF hk P(5) P(6) P(4)] hk show ?thesis
      by (simp add: handed_ok_def)
  qed
  have new: "array sl \<noteq> None"
    using P(2) P(3) by (auto simp: slice_ok_def split: option.splits)
  show "open_batch ?s' = []"
    by (simp add: s' open_batch_def elems_nil)
  show "attempts ?s' = attempts s @ [open_batch s @ [\<lparr>Data = buf\<rparr>]]"
    using old P(1) by (simp add: s' attempts_def publish_calls_append open_batch_def)
  show "\<forall>sl2 \<in> set (publish_calls (out s)). \<forall>a. array sl2 = Some a \<longrightarrow> mem ?s' a = mem s a"
    using old by (simp add: s')
  show "run_inv accepted c ?s'"
    unfolding run_inv_def
  proof (intro conjI)
    show "slice_ok (mem ?s') (next_addr ?s') (messages ?s')"
      by (simp add: s' slice_ok_nil)
    show "\<forall>sl2 \<in> set (publish_calls (out ?s')). handed_ok ?s' sl2"
      using old new P(2) P(3)
      by (auto simp: s' publish_calls_append handed_ok_def nil_slice_def)
    show "\<forall>tk \<in> set (pool ?s'). task_messages tk \<in> set (publish_calls (out ?s')) \<and>
            task_maxDelay tk = PubsubMaxPublishDelay (config c)"
      using i by (auto simp: s' run_inv_def publish_calls_append)
    show "(\<forall>n < length (publish_calls (out ?s')). accepted n) \<longrightarrow>
            active (timer ?s') \<or> C_full (timer ?s') \<or> pool ?s' \<noteq> []"
      by (simp add: s' publish_calls_append All_less_Suc)
    show "0 < PubsubMaxBatch (config c) \<longrightarrow> int (len (messages ?s')) < PubsubMaxBatch (config c)"
      by (simp add: s' nil_slice_def)
  qed
qed

lemma on_event_keep:
  assumes i: "run_inv accepted c s" and m: "marshal event = Inr buf"
    and notfull: "int (length (open_batch s)) + 1 \<noteq> PubsubMaxBatch (config c)"
  shows "run_inv accepted c (on_event accepted grow marshal c event s)"
    and "open_batch (on_event accepted grow marshal c event s) = open_batch s @ [\<lparr>Data = buf\<rparr>]"
    and "attempts (on_event accepted grow marshal c event s) = attempts s"
    and "out (on_event accepted grow marshal c event s) = out s"
    and "pool (on_event accepted grow marshal c event s) = pool s"
    and "timer (on_event accepted grow marshal c event s) = timer s"
    and "\<forall>sl2 \<in> set (publish_calls (out s)). \<forall>a. array sl2 = Some a \<longrightarrow>
           mem (on_event accepted grow marshal c event s) a = mem s a"
proof -
  let ?s' = "on_event accepted grow marshal c event s"
  obtain sl h nxt where ap:
    "append_slice grow (mem s) (next_addr s) (messages s) \<lparr>Data = buf\<rparr> = (sl, h, nxt)"
    by (cases "append_slice grow (mem s) (next_addr s) (messages s) \<lparr>Data = buf\<rparr>") auto
  from i have ok: "slice_ok (mem s) (next_addr s) (messages s)"
    by (simp add: run_inv_def)
  note P = append_slice_props [OF ok ap]
  have lenm: "length (open_batch s) = len (messages s)"
    using ok by (simp add: open_batch_def length_elems)
  with notfull P(3) have ne: "int (len sl) \<noteq> PubsubMaxBatch (config c)"
    by simp
  have s': "?s' = s\<lparr>messages := sl, mem := h, next_addr := nxt\<rparr>"
    using m ap ne by (rule on_event_Inr(2))
  have old: "slice_ok h nxt sl2 \<and> elems h sl2 = elems (mem s) sl2 \<and> array sl2 \<noteq> array sl \<and> 0 < len sl2 \<and>
      (\<forall>a. array sl2 = Some a \<longrightarrow> h a = mem s a)"
    if "sl2 \<in> set (publish_calls (out s))" for sl2
  proof -
    from i that have hk: "handed_ok s sl2"
      by (simp add: run_inv_def)
    from handed_frame [OF hk P(5) P(6) P(4)] hk show ?thesis
      by (simp add: handed_ok_def)
  qed
  show "open_batch ?s' = open_batch s @ [\<lparr>Data = buf\<rparr>]"
    using P(1) by (simp add: s' open_batch_def)
  show "attempts ?s' = attempts s"
    using old by (simp add: s' attempts_def)
  show "out ?s' = out s" and "pool ?s' = pool s" and "timer ?s' = timer s"
    by (simp_all add: s')
  show "\<forall>sl2 \<in> set (publish_calls (out s)). \<forall>a. array sl2 = Some a \<longrightarrow> mem ?s' a = mem s a"
    using old by (simp add: s')
  show "run_inv accepted c ?s'"
    unfolding run_inv_def
  proof (intro conjI)
    show "slice_ok (mem ?s') (next_addr ?s') (messages ?s')"
      using P(2) by (simp add: s')
    show "\<forall>sl2 \<in> set (publish_calls (out ?s')). handed_ok ?s' sl2"
      using old by (auto simp: s' handed_ok_def)
    show "\<forall>tk \<in> set (pool ?s'). task_messages tk \<in> set (publish_calls (out ?s')) \<and>
            task_maxDelay tk = PubsubMaxPublishDelay (config c)"
      using i by (auto simp: s' run_inv_def)
    show "(\<forall>n < length (publish_calls (out ?s')). accepted n) \<longrightarrow>
            active (timer ?s') \<or> C_full (timer ?s') \<or> pool ?s' \<noteq> []"
      using i by (simp add: s' run_inv_def)
    show "0 < PubsubMaxBatch (config c) \<longrightarrow> int (len (messages ?s')) < PubsubMaxBatch (config c)"
      using i ne P(3) by (auto simp: s' run_inv_def)
  qed
qed


lemma on_timer_empty_eq:
  "len (messages s) = 0 \<Longrightarrow>
   on_timer accepted c s =
     s\<lparr>timer := \<lparr>active = True, duration = PubsubMaxPublishDelay (config c), C_full = False\<rparr>,
       out := out s @ [Log Debug ''skipping publish due to no messages'' [],
                       TimerReset (PubsubMaxPublishDelay (config c))]\<rparr>"
  by (simp add: on_timer_def Reset_def)

lemma on_timer_flush_eq:
  "len (messages s) \<noteq> 0 \<Longrightarrow>
   on_timer accepted c s =
     s\<lparr>timer := (timer s)\<lparr>C_full := False\<rparr>,
       messages := nil_slice,
       wg_counter := wg_counter s + 1,
       pool := (if accepted (length (publish_calls (out s)))
                then pool s @ [\<lparr>task_messages = messages s,
                                 task_maxDelay = PubsubMaxPublishDelay (config c)\<rparr>]
                else pool s),
       out := out s @
         [Log Debug ''Calling publish due to time''
            [zapInt ''Number of message'' (int (len (messages s))),
             zapInt ''Aggrigator ID'' (id_p c)],
          CallPublish (messages s) (PubsubMaxPublishDelay (config c))]\<rparr>"
  by (simp add: on_timer_def Publish_def publish_calls_append)

lemma on_timer_empty:
  assumes i: "run_inv accepted c s" and e: "open_batch s = []"
  shows "run_inv accepted c (on_timer accepted c s)"
    and "open_batch (on_timer accepted c s) = []"
    and "attempts (on_timer accepted c s) = attempts s"
    and "mem (on_timer accepted c s) = mem s"
proof -
  from i have ok: "slice_ok (mem s) (next_addr s) (messages s)"
    by (simp add: run_inv_def)
  with e have l: "len (messages s) = 0"
    using length_elems [OF ok] by (simp add: open_batch_def)
  note s' = on_timer_empty_eq [OF l, of accepted c]
  show "open_batch (on_timer accepted c s) = []"
    using e by (simp add: s' open_batch_def)
  show "attempts (on_timer accepted c s) = attempts s"
    by (simp add: s' attempts_def publish_calls_append)
  show "mem (on_timer accepted c s) = mem s"
    by (simp add: s')
  show "run_inv accepted c (on_timer accepted c s)"
    using i by (simp add: s' run_inv_def handed_ok_def publish_calls_append)
qed

lemma on_timer_flush:
  assumes i: "run_inv accepted c s" and e: "open_batch s \<noteq> []"
  shows "run_inv accepted c (on_timer accepted c s)"
    and "open_batch (on_timer accepted c s) = []"
    and "attempts (on_timer accepted c s) = attempts s @ [open_batch s]"
    and "mem (on_timer accepted c s) = mem s"
proof -
  from i have ok: "slice_ok (mem s) (next_addr s) (messages s)"
    by (simp add: run_inv_def)
  have "length (open_batch s) = len (messages s)"
    using length_elems [OF ok] by (simp add: open_batch_def)
  with e have l: "len (messages s) \<noteq> 0"
    by (cases "open_batch s") auto
  note s' = on_timer_flush_eq [OF l, of accepted c]
  from ok l have arr: "array (messages s) \<noteq> None"
    by (auto simp: slice_ok_def split: option.splits)
  show "open_batch (on_timer accepted c s) = []"
    by (simp add: s' open_batch_def elems_nil)
  show "attempts (on_timer accepted c s) = attempts s @ [open_batch s]"
    by (simp add: s' attempts_def publish_calls_append open_batch_def)
  show "mem (on_timer accepted c s) = mem s"
    by (simp add: s')
  show "run_inv accepted c (on_timer accepted c s)"
    unfolding run_inv_def
  proof (intro conjI)
    show "slice_ok (mem (on_timer accepted c s)) (next_addr (on_timer accepted c s)) (messages (on_timer accepted c s))"
      by (simp add: s' slice_ok_nil)
    show "\<forall>sl2 \<in> set (publish_calls (out (on_timer accepted c s))). handed_ok (on_timer accepted c s) sl2"
      using i ok l arr
      by (auto simp: s' run_inv_def publish_calls_append handed_ok_def nil_slice_def slice_ok_def
          split: option.splits)
    show "\<forall>tk \<in> set (pool (on_timer accepted c s)).
            task_messages tk \<in> set (publish_calls (out (on_timer accepted c s))) \<and>
            task_maxDelay tk = PubsubMaxPublishDelay (config c)"
      using i by (auto simp: s' run_inv_def publish_calls_append)
    show "(\<forall>n < length (publish_calls (out (on_timer accepted c s))). accepted n) \<longrightarrow>
            active (timer (on_timer accepted c s)) \<or> C_full (timer (on_timer accepted c s)) \<or>
            pool (on_timer accepted c s) \<noteq> []"
      by (simp add: s' publish_calls_append All_less_Suc)
    show "0 < PubsubMaxBatch (config c) \<longrightarrow>
            int (len (messages (on_timer accepted c s))) < PubsubMaxBatch (config c)"
      by (simp add: s' nil_slice_def)
  qed
qed

lemma run_task_views:
  shows "mem (run_task get tk s) = mem s"
    and "messages (run_task get tk s) = messages s"
    and "next_addr (run_task get tk s) = next_addr s"
    and "pool (run_task get tk s) = pool s"
    and "publish_calls (out (run_task get tk s)) = publish_calls (out s)"
    and "timer (run_task get tk s) = Reset (task_maxDelay tk) (timer s)"
  by (simp_all add: run_task_def publish_calls_append publish_calls_task)

lemma step_inv:
  assumes i: "run_inv accepted c s" and st: "step accepted grow marshal c a s = Some s'"
  shows "run_inv accepted c s'"
proof (cases a)
  case (Recv event)
  show ?thesis
  proof (cases "marshal event")
    case (Inl err)
    with Recv st i show ?thesis
      by (auto simp: on_event_Inl intro: inv_out_log)
  next
    case (Inr buf)
    show ?thesis
    proof (cases "int (length (open_batch s)) + 1 = PubsubMaxBatch (config c)")
      case True
      have "run_inv accepted c (on_event accepted grow marshal c event s)"
        using i Inr True by (rule on_event_flush(1))
      with Recv st show ?thesis
        by auto
    next
      case False
      have "run_inv accepted c (on_event accepted grow marshal c event s)"
        using i Inr False by (rule on_event_keep(1))
      with Recv st show ?thesis
        by auto
    qed
  qed
next
  case TimerC
  with st have s': "s' = on_timer accepted c s"
    by (auto split: if_splits)
  show ?thesis
    using on_timer_empty(1) [OF i] on_timer_flush(1) [OF i] s'
    by (cases "open_batch s = []") auto
next
  case Expire
  with st i show ?thesis
    by (auto simp: run_inv_def handed_ok_def split: if_splits)
next
  case (TaskDone k get)
  with st have k: "k < length (pool s)"
    and s': "s' = run_task get (pool s ! k) (s\<lparr>pool := take k (pool s) @ drop (Suc k) (pool s)\<rparr>)"
    by (auto split: if_splits)
  have sub: "set (take k (pool s) @ drop (Suc k) (pool s)) \<subseteq> set (pool s)"
    using set_take_subset set_drop_subset by fastforce
  show ?thesis
    unfolding run_inv_def
    using i sub
    by (auto simp: s' run_task_views run_inv_def handed_ok_def Reset_def)
qed

lemma exec_inv:
  assumes "run_inv accepted c s" and "exec accepted grow marshal c sched s = Some s'"
  shows "run_inv accepted c s'"
  using assms
proof (induction sched arbitrary: s)
  case Nil
  then show ?case by simp
next
  case (Cons a sched)
  then show ?case
    by (auto split: option.splits dest: step_inv)
qed

lemma exec_append:
  "exec accepted grow marshal c (xs @ ys) s =
     (case exec accepted grow marshal c xs s of None \<Rightarrow> None | Some s' \<Rightarrow> exec accepted grow marshal c ys s')"
  by (induction xs arbitrary: s) (auto split: option.splits)

section \<open>What a step does to the open batch and the publish attempts\<close>

lemma Run_reach:
  assumes "Run accepted grow marshal c sched = Inr (Some s)"
  shows "run_inv accepted c s"
proof -
  from assms obtain s0 where s0: "Run_init c = Inr s0" "exec accepted grow marshal c sched s0 = Some s"
    by (auto simp: Run_def split: sum.splits)
  from Run_init_inv [OF s0(1)] s0(2) show ?thesis
    by (rule exec_inv)
qed

lemma Run_snoc:
  "Run accepted grow marshal c (sched @ [a]) = Inr (Some s') \<longleftrightarrow>
     (\<exists>s. Run accepted grow marshal c sched = Inr (Some s) \<and> step accepted grow marshal c a s = Some s')"
  by (auto simp: Run_def exec_append split: sum.splits option.splits)

lemma Run_Nil:
  assumes "Run accepted grow marshal c [] = Inr (Some s)"
  shows "open_batch s = []" and "attempts s = []"
  using assms Run_init_views(1,2) [of c s]
  by (auto simp: Run_def split: sum.splits)

lemma received_append: "received (xs @ ys) = received xs @ received ys"
  by (induction xs rule: received.induct) auto

lemma serialized_append:
  "serialized marshal (xs @ ys) = serialized marshal xs @ serialized marshal ys"
  by (induction xs) (auto split: sum.splits)

text \<open>What one step does to the open batch and to the publish attempts.\<close>

lemma step_Recv_Inl:
  assumes "marshal event = Inl err" and "step accepted grow marshal c (Recv event) s = Some s'"
  shows "s' = s\<lparr>out := out s @ [Log Error ''Error Marshaling event'' [zapError err]]\<rparr>"
    and "open_batch s' = open_batch s" and "attempts s' = attempts s"
  using assms by (auto simp: on_event_Inl open_batch_def attempts_def publish_calls_append)

lemma step_Recv_flush:
  assumes "run_inv accepted c s" and "marshal event = Inr buf"
    and "int (length (open_batch s)) + 1 = PubsubMaxBatch (config c)"
    and "step accepted grow marshal c (Recv event) s = Some s'"
  shows "open_batch s' = []" and "attempts s' = attempts s @ [open_batch s @ [\<lparr>Data = buf\<rparr>]]"
proof -
  from assms(4) have s': "s' = on_event accepted grow marshal c event s"
    by simp
  show "open_batch s' = []"
    unfolding s' using assms(1-3) by (rule on_event_flush(2))
  show "attempts s' = attempts s @ [open_batch s @ [\<lparr>Data = buf\<rparr>]]"
    unfolding s' using assms(1-3) by (rule on_event_flush(3))
qed

lemma step_Recv_keep:
  assumes "run_inv accepted c s" and "marshal event = Inr buf"
    and "int (length (open_batch s)) + 1 \<noteq> PubsubMaxBatch (config c)"
    and "step accepted grow marshal c (Recv event) s = Some s'"
  shows "open_batch s' = open_batch s @ [\<lparr>Data = buf\<rparr>]" and "attempts s' = attempts s"
proof -
  from assms(4) have s': "s' = on_event accepted grow marshal c event s"
    by simp
  show "open_batch s' = open_batch s @ [\<lparr>Data = buf\<rparr>]"
    unfolding s' using assms(1-3) by (rule on_event_keep(2))
  show "attempts s' = attempts s"
    unfolding s' using assms(1-3) by (rule on_event_keep(3))
qed

lemma step_TimerC:
  assumes "run_inv accepted c s" and "step accepted grow marshal c TimerC s = Some s'"
  shows "open_batch s' = []"
    and "attempts s' = (if open_batch s = [] then attempts s else attempts s @ [open_batch s])"
proof -
  from assms(2) have s': "s' = on_timer accepted c s"
    by (simp split: if_splits)
  show "open_batch s' = []"
    using on_timer_empty(2) [OF assms(1)] on_timer_flush(2) [OF assms(1)]
    by (cases "open_batch s = []") (simp_all add: s')
  show "attempts s' = (if open_batch s = [] then attempts s else attempts s @ [open_batch s])"
    using on_timer_empty(3) [OF assms(1)] on_timer_flush(3) [OF assms(1)]
    by (simp add: s')
qed

lemma step_Expire:
  assumes "step accepted grow marshal c Expire s = Some s'"
  shows "open_batch s' = open_batch s" and "attempts s' = attempts s"
  using assms by (auto simp: open_batch_def attempts_def split: if_splits)

lemma step_TaskDone:
  assumes "step accepted grow marshal c (TaskDone k get) s = Some s'"
  shows "open_batch s' = open_batch s" and "attempts s' = attempts s"
  using assms by (auto simp: open_batch_def attempts_def run_task_views split: if_splits)

text \<open>
  Every message serialised so far is in exactly one place: in one of the publish attempts,
  in their order, or in the open batch.
\<close>

lemma step_order:
  assumes i: "run_inv accepted c s" and st: "step accepted grow marshal c a s = Some s'"
  shows "concat (attempts s') @ open_batch s' =
         concat (attempts s) @ open_batch s @ serialized marshal (received [a])"
proof (cases a)
  case (Recv event)
  show ?thesis
  proof (cases "marshal event")
    case (Inl err)
    with step_Recv_Inl(2,3) [OF Inl st [unfolded Recv]] Recv show ?thesis
      by simp
  next
    case (Inr buf)
    show ?thesis
    proof (cases "int (length (open_batch s)) + 1 = PubsubMaxBatch (config c)")
      case True
      with step_Recv_flush [OF i Inr True st [unfolded Recv]] Recv Inr show ?thesis
        by simp
    next
      case False
      with step_Recv_keep [OF i Inr False st [unfolded Recv]] Recv Inr show ?thesis
        by simp
    qed
  qed
next
  case TimerC
  with step_TimerC [OF i st [unfolded TimerC]] show ?thesis
    by simp
next
  case Expire
  with step_Expire [OF st [unfolded Expire]] show ?thesis
    by simp
next
  case (TaskDone k get)
  with step_TaskDone [OF st [unfolded TaskDone]] show ?thesis
    by simp
qed

lemma Run_order:
  assumes "Run accepted grow marshal c sched = Inr (Some s)"
  shows "concat (attempts s) @ open_batch s = serialized marshal (received sched)"
  using assms
proof (induction sched arbitrary: s rule: rev_induct)
  case Nil
  with Run_Nil [OF Nil] show ?case
    by simp
next
  case (snoc a sched)
  from snoc.prems obtain s1 where s1: "Run accepted grow marshal c sched = Inr (Some s1)"
    and st: "step accepted grow marshal c a s1 = Some s"
    by (auto simp: Run_snoc)
  from step_order [OF Run_reach [OF s1] st] snoc.IH [OF s1] show ?case
    by (simp add: received_append serialized_append)
qed

section \<open>The cases of a step\<close>

lemma resets_append: "resets (xs @ ys) = resets xs @ resets ys"
  by (induction xs rule: resets.induct) auto

lemma resets_map: "resets (map TopicPublish ms) = []"
  by (induction ms) auto

lemma resets_await: "resets (concat (map (await_one get) rs)) = []"
  by (induction rs) (auto simp: await_one_def resets_append split: prod.splits option.splits)

lemma resets_task: "resets (Publish_task get msgs d) = [d]"
  by (simp add: Publish_task_eq resets_append resets_map resets_await)

text \<open>The seven ways a step can go from a state that satisfies the invariant.\<close>

lemma step_cases [consumes 2, case_names drop keep size_flush skip time_flush expire finish]:
  assumes i: "run_inv accepted c s" and st: "step accepted grow marshal c a s = Some s'"
  obtains
    (drop) event err where "a = Recv event" and "marshal event = Inl err"
      and "s' = s\<lparr>out := out s @ [Log Error ''Error Marshaling event'' [zapError err]]\<rparr>"
  | (keep) event buf sl h nxt where "a = Recv event" and "marshal event = Inr buf"
      and "int (length (open_batch s)) + 1 \<noteq> PubsubMaxBatch (config c)"
      and "s' = s\<lparr>messages := sl, mem := h, next_addr := nxt\<rparr>"
      and "elems h sl = open_batch s @ [\<lparr>Data = buf\<rparr>]"
      and "\<forall>sl2 \<in> set (publish_calls (out s)). \<forall>a. array sl2 = Some a \<longrightarrow> h a = mem s a"
  | (size_flush) event buf sl h nxt where "a = Recv event" and "marshal event = Inr buf"
      and "int (length (open_batch s)) + 1 = PubsubMaxBatch (config c)"
      and "s' = s\<lparr>messages := nil_slice, mem := h, next_addr := nxt,
             wg_counter := wg_counter s + 1,
             pool := (if accepted (length (publish_calls (out s)))
                      then pool s @ [\<lparr>task_messages = sl,
                                       task_maxDelay = PubsubMaxPublishDelay (config c)\<rparr>]
                      else pool s),
             out := out s @
               [Log Debug ''Calling publish due to capacity ''
                  [zapInt ''Number of message'' (int (len sl)), zapInt ''Aggrigator ID'' (id_p c)],
                CallPublish sl (PubsubMaxPublishDelay (config c))]\<rparr>"
      and "elems h sl = open_batch s @ [\<lparr>Data = buf\<rparr>]"
      and "\<forall>sl2 \<in> set (publish_calls (out s)). \<forall>a. array sl2 = Some a \<longrightarrow> h a = mem s a"
  | (skip) "a = TimerC" and "C_full (timer s)" and "open_batch s = []"
      and "s' = s\<lparr>timer := \<lparr>active = True, duration = PubsubMaxPublishDelay (config c),
                              C_full = False\<rparr>,
                   out := out s @ [Log Debug ''skipping publish due to no messages'' [],
                                   TimerReset (PubsubMaxPublishDelay (config c))]\<rparr>"
  | (time_flush) "a = TimerC" and "C_full (timer s)" and "open_batch s \<noteq> []"
      and "s' = s\<lparr>timer := (timer s)\<lparr>C_full := False\<rparr>,
             messages := nil_slice,
             wg_counter := wg_counter s + 1,
             pool := (if accepted (length (publish_calls (out s)))
                      then pool s @ [\<lparr>task_messages = messages s,
                                       task_maxDelay = PubsubMaxPublishDelay (config c)\<rparr>]
                      else pool s),
             out := out s @
               [Log Debug ''Calling publish due to time''
                  [zapInt ''Number of message'' (int (len (messages s))),
                   zapInt ''Aggrigator ID'' (id_p c)],
                CallPublish (messages s) (PubsubMaxPublishDelay (config c))]\<rparr>"
  | (expire) "a = Expire" and "active (timer s)"
      and "s' = s\<lparr>timer := (timer s)\<lparr>active := False, C_full := True\<rparr>\<rparr>"
  | (finish) k get where "a = TaskDone k get" and "k < length (pool s)"
      and "s' = run_task get (pool s ! k) (s\<lparr>pool := take k (pool s) @ drop (Suc k) (pool s)\<rparr>)"
proof (cases a)
  case (Recv event)
  show ?thesis
  proof (cases "marshal event")
    case (Inl err)
    with Recv st have "s' = s\<lparr>out := out s @ [Log Error ''Error Marshaling event'' [zapError err]]\<rparr>"
      by (simp add: on_event_Inl)
    with Recv Inl show ?thesis
      by (rule drop)
  next
    case (Inr buf)
    obtain sl h nxt where ap:
      "append_slice grow (mem s) (next_addr s) (messages s) \<lparr>Data = buf\<rparr> = (sl, h, nxt)"
      by (cases "append_slice grow (mem s) (next_addr s) (messages s) \<lparr>Data = buf\<rparr>") auto
    from i have ok: "slice_ok (mem s) (next_addr s) (messages s)"
      by (simp add: run_inv_def)
    note P = append_slice_props [OF ok ap]
    have lenm: "length (open_batch s) = len (messages s)"
      using ok by (simp add: open_batch_def length_elems)
    have el: "elems h sl = open_batch s @ [\<lparr>Data = buf\<rparr>]"
      using P(1) by (simp add: open_batch_def)
    have fr: "\<forall>sl2 \<in> set (publish_calls (out s)). \<forall>a. array sl2 = Some a \<longrightarrow> h a = mem s a"
    proof
      fix sl2 assume "sl2 \<in> set (publish_calls (out s))"
      with i have hk: "handed_ok s sl2"
        by (simp add: run_inv_def)
      from handed_frame(5) [OF hk P(5) P(6) P(4)]
      show "\<forall>a. array sl2 = Some a \<longrightarrow> h a = mem s a" .
    qed
    show ?thesis
    proof (cases "int (length (open_batch s)) + 1 = PubsubMaxBatch (config c)")
      case True
      with lenm P(3) have eq: "int (len sl) = PubsubMaxBatch (config c)"
        by simp
      have "on_event accepted grow marshal c event s = s\<lparr>messages := nil_slice, mem := h, next_addr := nxt,
             wg_counter := wg_counter s + 1,
             pool := (if accepted (length (publish_calls (out s)))
                      then pool s @ [\<lparr>task_messages = sl,
                                       task_maxDelay = PubsubMaxPublishDelay (config c)\<rparr>]
                      else pool s),
             out := out s @
               [Log Debug ''Calling publish due to capacity ''
                  [zapInt ''Number of message'' (int (len sl)), zapInt ''Aggrigator ID'' (id_p c)],
                CallPublish sl (PubsubMaxPublishDelay (config c))]\<rparr>"
        using Inr ap eq by (rule on_event_Inr(1))
      with Recv st have "s' = s\<lparr>messages := nil_slice, mem := h, next_addr := nxt,
             wg_counter := wg_counter s + 1,
             pool := (if accepted (length (publish_calls (out s)))
                      then pool s @ [\<lparr>task_messages = sl,
                                       task_maxDelay = PubsubMaxPublishDelay (config c)\<rparr>]
                      else pool s),
             out := out s @
               [Log Debug ''Calling publish due to capacity ''
                  [zapInt ''Number of message'' (int (len sl)), zapInt ''Aggrigator ID'' (id_p c)],
                CallPublish sl (PubsubMaxPublishDelay (config c))]\<rparr>"
        by simp
      with Recv Inr True show ?thesis
        using el fr by (rule size_flush)
    next
      case False
      with lenm P(3) have ne: "int (len sl) \<noteq> PubsubMaxBatch (config c)"
        by simp
      have "on_event accepted grow marshal c event s = s\<lparr>messages := sl, mem := h, next_addr := nxt\<rparr>"
        using Inr ap ne by (rule on_event_Inr(2))
      with Recv st have "s' = s\<lparr>messages := sl, mem := h, next_addr := nxt\<rparr>"
        by simp
      with Recv Inr False show ?thesis
        using el fr by (rule keep)
    qed
  qed
next
  case TimerC
  with st have s': "s' = on_timer accepted c s" and cf: "C_full (timer s)"
    by (auto split: if_splits)
  from i have ok: "slice_ok (mem s) (next_addr s) (messages s)"
    by (simp add: run_inv_def)
  have lenm: "length (open_batch s) = len (messages s)"
    using ok by (simp add: open_batch_def length_elems)
  show ?thesis
  proof (cases "open_batch s = []")
    case True
    with lenm have "len (messages s) = 0"
      by simp
    from on_timer_empty_eq [OF this, of accepted c] s'
    have "s' = s\<lparr>timer := \<lparr>active = True, duration = PubsubMaxPublishDelay (config c),
                              C_full = False\<rparr>,
                   out := out s @ [Log Debug ''skipping publish due to no messages'' [],
                                   TimerReset (PubsubMaxPublishDelay (config c))]\<rparr>"
      by simp
    with TimerC cf True show ?thesis
      by (rule skip)
  next
    case False
    with lenm have "len (messages s) \<noteq> 0"
      by (cases "open_batch s") auto
    from on_timer_flush_eq [OF this, of accepted c] s'
    have "s' = s\<lparr>timer := (timer s)\<lparr>C_full := False\<rparr>,
             messages := nil_slice,
             wg_counter := wg_counter s + 1,
             pool := (if accepted (length (publish_calls (out s)))
                      then pool s @ [\<lparr>task_messages = messages s,
                                       task_maxDelay = PubsubMaxPublishDelay (config c)\<rparr>]
                      else pool s),
             out := out s @
               [Log Debug ''Calling publish due to time''
                  [zapInt ''Number of message'' (int (len (messages s))),
                   zapInt ''Aggrigator ID'' (id_p c)],
                CallPublish (messages s) (PubsubMaxPublishDelay (config c))]\<rparr>"
      by simp
    with TimerC cf False show ?thesis
      by (rule time_flush)
  qed
next
  case Expire
  with st have "active (timer s)"
    and "s' = s\<lparr>timer := (timer s)\<lparr>active := False, C_full := True\<rparr>\<rparr>"
    by (auto split: if_splits)
  with Expire show ?thesis
    by (rule expire)
next
  case (TaskDone k get)
  with st have "k < length (pool s)"
    and "s' = run_task get (pool s ! k) (s\<lparr>pool := take k (pool s) @ drop (Suc k) (pool s)\<rparr>)"
    by (auto split: if_splits)
  with TaskDone show ?thesis
    by (rule finish)
qed

text \<open>
  A closure the pool refuses is dropped. Here the pool refuses the closure of a
  time-triggered flush: \<open>wg.Add(1)\<close> is done, no task is in the pool, and no reset follows.
\<close>

lemma refused_closure_dropped:
  assumes "Run ex_refuse ex_grow ex_marshal (ex_publisher 5)
             [Recv (ex_event ''A''), Expire, TimerC] = Inr (Some s)"
  shows "length (publish_calls (out s)) = 1" and "pool s = []" and "wg_counter s = 1"
    and "resets (out s) = []"
    and "timer s = \<lparr>active = False, duration = 100, C_full = False\<rparr>"
  using assms by (auto simp add: run_eval ex_defs)

section \<open>The size trigger\<close>

lemma Run_below_max:
  assumes "Run accepted grow marshal c sched = Inr (Some s)" and "TimerC \<notin> set sched"
    and "int (length (serialized marshal (received sched))) < PubsubMaxBatch (config c)"
  shows "attempts s = []"
  using assms
proof (induction sched arbitrary: s rule: rev_induct)
  case Nil
  then show ?case
    using Run_Nil(2) by blast
next
  case (snoc a sched)
  from snoc.prems(1) obtain s1 where s1: "Run accepted grow marshal c sched = Inr (Some s1)"
    and st: "step accepted grow marshal c a s1 = Some s"
    by (auto simp: Run_snoc)
  have i: "run_inv accepted c s1"
    using s1 by (rule Run_reach)
  from snoc.prems(3)
  have n: "int (length (serialized marshal (received sched))) +
           int (length (serialized marshal (received [a]))) < PubsubMaxBatch (config c)"
    by (simp add: received_append serialized_append)
  then have "int (length (serialized marshal (received sched))) < PubsubMaxBatch (config c)"
    by linarith
  with snoc.IH [OF s1] snoc.prems(2) have a1: "attempts s1 = []"
    by simp
  with Run_order [OF s1] have o1: "open_batch s1 = serialized marshal (received sched)"
    by simp
  show ?case
  proof (cases a)
    case (Recv event)
    show ?thesis
    proof (cases "marshal event")
      case (Inl err)
      with step_Recv_Inl(3) [OF Inl st [unfolded Recv]] a1 show ?thesis
        by simp
    next
      case (Inr buf)
      with n Recv o1 have "int (length (open_batch s1)) + 1 \<noteq> PubsubMaxBatch (config c)"
        by simp
      from step_Recv_keep(2) [OF i Inr this st [unfolded Recv]] a1 show ?thesis
        by simp
    qed
  next
    case TimerC
    with snoc.prems(2) show ?thesis
      by simp
  next
    case Expire
    with step_Expire(2) [OF st [unfolded Expire]] a1 show ?thesis
      by simp
  next
    case (TaskDone k get)
    with step_TaskDone(2) [OF st [unfolded TaskDone]] a1 show ?thesis
      by simp
  qed
qed

lemma Run_at_max:
  assumes "Run accepted grow marshal c sched = Inr (Some s)" and "TimerC \<notin> set sched"
    and "int (length (serialized marshal (received sched))) = PubsubMaxBatch (config c)"
    and "serialized marshal (received sched) \<noteq> []"
  shows "attempts s = [serialized marshal (received sched)]"
  using assms
proof (induction sched arbitrary: s rule: rev_induct)
  case Nil
  then show ?case
    by simp
next
  case (snoc a sched)
  from snoc.prems(1) obtain s1 where s1: "Run accepted grow marshal c sched = Inr (Some s1)"
    and st: "step accepted grow marshal c a s1 = Some s"
    by (auto simp: Run_snoc)
  have i: "run_inv accepted c s1"
    using s1 by (rule Run_reach)
  from snoc.prems(2) have nt: "TimerC \<notin> set sched"
    by simp
  have same: "attempts s = [serialized marshal (received (sched @ [a]))]"
    if "serialized marshal (received [a]) = []" and "attempts s = attempts s1"
  proof -
    from that(1) have "serialized marshal (received (sched @ [a])) =
        serialized marshal (received sched)"
      by (simp add: received_append serialized_append)
    with snoc.IH [OF s1 nt] snoc.prems(3,4) that(2) show ?thesis
      by simp
  qed
  show ?case
  proof (cases a)
    case (Recv event)
    show ?thesis
    proof (cases "marshal event")
      case (Inl err)
      with step_Recv_Inl(3) [OF Inl st [unfolded Recv]] Recv same show ?thesis
        by simp
    next
      case (Inr buf)
      with Recv snoc.prems(3)
      have n: "int (length (serialized marshal (received sched))) + 1 = PubsubMaxBatch (config c)"
        by (simp add: received_append serialized_append)
      then have "int (length (serialized marshal (received sched))) < PubsubMaxBatch (config c)"
        by linarith
      with Run_below_max [OF s1 nt] have a1: "attempts s1 = []"
        by simp
      with Run_order [OF s1] have o1: "open_batch s1 = serialized marshal (received sched)"
        by simp
      with n have "int (length (open_batch s1)) + 1 = PubsubMaxBatch (config c)"
        by simp
      from step_Recv_flush(2) [OF i Inr this st [unfolded Recv]] a1 o1 Recv Inr show ?thesis
        by (simp add: received_append serialized_append)
    qed
  next
    case TimerC
    with snoc.prems(2) show ?thesis
      by simp
  next
    case Expire
    with step_Expire(2) [OF st [unfolded Expire]] same show ?thesis
      by simp
  next
    case (TaskDone k get)
    with step_TaskDone(2) [OF st [unfolded TaskDone]] same show ?thesis
      by simp
  qed
qed

text \<open>
  Claim C1 says that \<open>N\<close> events with \<open>N\<close> equal to \<open>PubsubMaxBatch\<close> give exactly one
  publish attempt. With \<open>PubsubMaxBatch = 0\<close>, which \<open>make\<close> accepts, the run that has
  received no event has \<open>N = 0 = PubsubMaxBatch\<close> and no publish attempt: the loop
  publishes only after an append or on a fire.
\<close>

theorem Run_no_event_counterexample:
  "map_sum id (map_option attempts)
     (Run ex_accept ex_grow ex_marshal (ex_publisher 0) []) = Inr (Some []) \<and>
   int (length (serialized ex_marshal (received ([] :: string EventMsg action list)))) =
     PubsubMaxBatch (config (ex_publisher 0))"
  by (simp add: run_eval ex_defs)

text \<open>
  Claim C1, amended. The Dispatch Loop has processed a schedule in which it never received
  the timer's fire, and \<open>N\<close> of the events it received serialised. If \<open>N\<close> is less than
  \<open>PubsubMaxBatch\<close>, no publish attempt has been made. If \<open>N\<close> equals \<open>PubsubMaxBatch\<close>
  and is at least one, exactly one publish attempt has been made and its batch is the
  \<open>N\<close> messages in the order of arrival.
\<close>

theorem Run_size_trigger:
  assumes "Run accepted grow marshal c sched = Inr (Some s)" and "TimerC \<notin> set sched"
  shows "(int (length (serialized marshal (received sched))) < PubsubMaxBatch (config c)
            \<longrightarrow> attempts s = []) \<and>
         (int (length (serialized marshal (received sched))) = PubsubMaxBatch (config c) \<and>
          serialized marshal (received sched) \<noteq> []
            \<longrightarrow> attempts s = [serialized marshal (received sched)])"
  using Run_below_max [OF assms] Run_at_max [OF assms] by blast

text \<open>
  A maximum batch size of three; the timer expires but its fire is not received. After two
  events nothing is published, after three there is one publish attempt with all three.
\<close>

theorem Run_size_trigger_witness:
  "(\<exists>s. Run ex_accept ex_grow ex_marshal (ex_publisher 3)
          [Recv (ex_event ''A''), Expire, Recv (ex_event ''C'')] = Inr (Some s) \<and>
        attempts s = []) \<and>
   (\<exists>s. Run ex_accept ex_grow ex_marshal (ex_publisher 3)
          [Recv (ex_event ''A''), Expire, Recv (ex_event ''C''), Recv (ex_event ''D'')] = Inr (Some s) \<and>
        attempts s = [[\<lparr>Data = [65]\<rparr>, \<lparr>Data = [67]\<rparr>, \<lparr>Data = [68]\<rparr>]])"
proof -
  have "\<exists>s. Run ex_accept ex_grow ex_marshal (ex_publisher 3)
          [Recv (ex_event ''A''), Expire, Recv (ex_event ''C'')] = Inr (Some s)"
    by (simp add: run_eval ex_defs)
  then obtain s where s: "Run ex_accept ex_grow ex_marshal (ex_publisher 3)
          [Recv (ex_event ''A''), Expire, Recv (ex_event ''C'')] = Inr (Some s)"
    by blast
  from Run_size_trigger [OF s]
  have 1: "attempts s = []"
    by (simp add: ex_defs)
  have "\<exists>t. Run ex_accept ex_grow ex_marshal (ex_publisher 3)
          [Recv (ex_event ''A''), Expire, Recv (ex_event ''C''), Recv (ex_event ''D'')] = Inr (Some t)"
    by (simp add: run_eval ex_defs)
  then obtain t where t: "Run ex_accept ex_grow ex_marshal (ex_publisher 3)
          [Recv (ex_event ''A''), Expire, Recv (ex_event ''C''), Recv (ex_event ''D'')] = Inr (Some t)"
    by blast
  from Run_size_trigger [OF t]
  have 2: "attempts t = [[\<lparr>Data = [65]\<rparr>, \<lparr>Data = [67]\<rparr>, \<lparr>Data = [68]\<rparr>]]"
    by (simp add: ex_defs)
  from s 1 t 2 show ?thesis
    by blast
qed

section \<open>What a step leaves alone\<close>

lemma elems_cong:
  "(\<forall>a. array sl = Some a \<longrightarrow> h' a = h a) \<Longrightarrow> elems h' sl = elems h sl"
  by (auto simp: elems_def split: option.splits)

text \<open>A step adds at most one call of \<open>c.Publish\<close> and changes no array handed over before.\<close>

lemma step_calls:
  assumes "run_inv accepted c s" and "step accepted grow marshal c a s = Some s'"
  shows "publish_calls (out s') = publish_calls (out s) \<or>
         (\<exists>sl. publish_calls (out s') = publish_calls (out s) @ [sl] \<and> messages s' = nil_slice \<and>
            pool s' =
              (if accepted (length (publish_calls (out s)))
               then pool s @ [\<lparr>task_messages = sl,
                                 task_maxDelay = PubsubMaxPublishDelay (config c)\<rparr>]
               else pool s) \<and>
            resets (out s') = resets (out s) \<and>
            active (timer s') = active (timer s) \<and> duration (timer s') = duration (timer s))"
  using assms
  by (cases rule: step_cases)
    (simp_all add: publish_calls_append resets_append run_task_views)

lemma step_frame:
  assumes "run_inv accepted c s" and "step accepted grow marshal c a s = Some s'"
    and "sl \<in> set (publish_calls (out s))"
  shows "sl \<in> set (publish_calls (out s'))" and "\<forall>a. array sl = Some a \<longrightarrow> mem s' a = mem s a"
proof -
  from assms have "sl \<in> set (publish_calls (out s')) \<and> (\<forall>a. array sl = Some a \<longrightarrow> mem s' a = mem s a)"
    by (cases rule: step_cases) (simp_all add: publish_calls_append run_task_views)
  then show "sl \<in> set (publish_calls (out s'))" and "\<forall>a. array sl = Some a \<longrightarrow> mem s' a = mem s a"
    by simp_all
qed

lemma exec_frame:
  assumes "run_inv accepted c s" and "exec accepted grow marshal c sched s = Some s'"
    and "sl \<in> set (publish_calls (out s))"
  shows "sl \<in> set (publish_calls (out s')) \<and> (\<forall>a. array sl = Some a \<longrightarrow> mem s' a = mem s a)"
  using assms
proof (induction sched arbitrary: s)
  case Nil
  then show ?case by simp
next
  case (Cons a sched)
  from Cons.prems(2) obtain s1 where st: "step accepted grow marshal c a s = Some s1"
    and ex: "exec accepted grow marshal c sched s1 = Some s'"
    by (auto split: option.splits)
  from step_inv [OF Cons.prems(1) st] have i1: "run_inv accepted c s1" .
  from step_frame [OF Cons.prems(1) st Cons.prems(3)]
  have m1: "sl \<in> set (publish_calls (out s1))" and f1: "\<forall>a. array sl = Some a \<longrightarrow> mem s1 a = mem s a"
    by simp_all
  from Cons.IH [OF i1 ex m1] f1 show ?case
    by simp
qed

lemma Run_exec:
  assumes "Run accepted grow marshal c sched = Inr (Some s)" and "exec accepted grow marshal c sched2 s = Some s'"
  shows "Run accepted grow marshal c (sched @ sched2) = Inr (Some s')"
  using assms by (auto simp: Run_def exec_append split: sum.splits)

lemma inv_distinct:
  assumes "run_inv accepted c s" and "sl \<in> set (publish_calls (out s))"
  shows "array sl \<noteq> None" and "array sl \<noteq> array (messages s)" and "elems (mem s) sl \<noteq> []"
proof -
  from assms have h: "handed_ok s sl"
    by (simp add: run_inv_def)
  then show "array sl \<noteq> None"
    using handed_array by fastforce
  from h show "array sl \<noteq> array (messages s)"
    by (simp add: handed_ok_def)
  from h have "slice_ok (mem s) (next_addr s) sl" and "0 < len sl"
    by (simp_all add: handed_ok_def)
  then have "length (elems (mem s) sl) = len sl" and "0 < len sl"
    by (simp_all add: length_elems)
  then show "elems (mem s) sl \<noteq> []"
    by auto
qed

lemma Run_append:
  "Run accepted grow marshal c (xs @ ys) = Inr (Some s2) \<longleftrightarrow>
     (\<exists>s1. Run accepted grow marshal c xs = Inr (Some s1) \<and> exec accepted grow marshal c ys s1 = Some s2)"
  by (auto simp: Run_def exec_append split: sum.splits option.splits)

section \<open>The timer trigger\<close>

text \<open>
  Claim C2. The Dispatch Loop receives the fire of the FlushTimer. The open batch holds
  the messages serialised so far that no publish attempt has taken, in their order of
  arrival, fewer than \<open>PubsubMaxBatch\<close> of them (for a positive \<open>PubsubMaxBatch\<close>). If
  it is not empty, exactly one publish attempt is made, with the slice of the open batch
  and so with exactly these messages. If it is empty, no publish attempt is
  made, no task is started, and the loop itself rearms the timer in the same iteration, to
  \<open>PubsubMaxPublishDelay\<close>.
\<close>

theorem timer_fire:
  assumes "Run accepted grow marshal c sched = Inr (Some s)"
    and "step accepted grow marshal c TimerC s = Some s'"
  shows "concat (attempts s) @ open_batch s = serialized marshal (received sched) \<and>
         (0 < PubsubMaxBatch (config c) \<longrightarrow>
            int (length (open_batch s)) < PubsubMaxBatch (config c)) \<and>
         (open_batch s \<noteq> [] \<longrightarrow>
            publish_calls (out s') = publish_calls (out s) @ [messages s] \<and>
            attempts s' = attempts s @ [open_batch s]) \<and>
         (open_batch s = [] \<longrightarrow>
            publish_calls (out s') = publish_calls (out s) \<and>
            attempts s' = attempts s \<and>
            pool s' = pool s \<and>
            resets (out s') = resets (out s) @ [PubsubMaxPublishDelay (config c)] \<and>
            timer s' = \<lparr>active = True, duration = PubsubMaxPublishDelay (config c),
                         C_full = False\<rparr>)"
proof -
  have i: "run_inv accepted c s"
    using assms(1) by (rule Run_reach)
  have "(open_batch s \<noteq> [] \<longrightarrow>
            publish_calls (out s') = publish_calls (out s) @ [messages s]) \<and>
         (open_batch s = [] \<longrightarrow>
            publish_calls (out s') = publish_calls (out s) \<and>
            pool s' = pool s \<and>
            resets (out s') = resets (out s) @ [PubsubMaxPublishDelay (config c)] \<and>
            timer s' = \<lparr>active = True, duration = PubsubMaxPublishDelay (config c),
                         C_full = False\<rparr>)"
    using i assms(2)
    by (cases rule: step_cases) (simp_all add: publish_calls_append resets_append)
  moreover have "0 < PubsubMaxBatch (config c) \<longrightarrow>
      int (length (open_batch s)) < PubsubMaxBatch (config c)"
  proof -
    from i have "slice_ok (mem s) (next_addr s) (messages s)"
      and "0 < PubsubMaxBatch (config c) \<longrightarrow> int (len (messages s)) < PubsubMaxBatch (config c)"
      by (simp_all add: run_inv_def)
    then show ?thesis
      by (simp add: open_batch_def length_elems)
  qed
  ultimately show ?thesis
    using Run_order [OF assms(1)] step_TimerC(2) [OF i assms(2)]
    by simp
qed

text \<open>
  The fire is received with two events buffered, of at most five, and with none buffered.
\<close>

theorem timer_fire_witness:
  "(\<exists>s s'. Run ex_accept ex_grow ex_marshal (ex_publisher 5)
             [Recv (ex_event ''A''), Recv (ex_event ''C''), Expire] = Inr (Some s) \<and>
          step ex_accept ex_grow ex_marshal (ex_publisher 5) TimerC s = Some s' \<and>
          open_batch s = [\<lparr>Data = [65]\<rparr>, \<lparr>Data = [67]\<rparr>] \<and>
          attempts s' = [[\<lparr>Data = [65]\<rparr>, \<lparr>Data = [67]\<rparr>]]) \<and>
   (\<exists>s s'. Run ex_accept ex_grow ex_marshal (ex_publisher 5) [Expire] = Inr (Some s) \<and>
          step ex_accept ex_grow ex_marshal (ex_publisher 5) TimerC s = Some s' \<and>
          open_batch s = [] \<and> attempts s' = [] \<and> pool s' = pool s \<and>
          resets (out s') = resets (out s) @ [100] \<and>
          timer s' = \<lparr>active = True, duration = 100, C_full = False\<rparr>)"
proof -
  have "\<exists>s'. Run ex_accept ex_grow ex_marshal (ex_publisher 5)
          ([Recv (ex_event ''A''), Recv (ex_event ''C''), Expire] @ [TimerC]) = Inr (Some s')"
    by (simp add: run_eval ex_defs)
  then obtain s s' where s: "Run ex_accept ex_grow ex_marshal (ex_publisher 5)
          [Recv (ex_event ''A''), Recv (ex_event ''C''), Expire] = Inr (Some s)"
    and st: "step ex_accept ex_grow ex_marshal (ex_publisher 5) TimerC s = Some s'"
    unfolding Run_snoc by blast
  have "Run ex_accept ex_grow ex_marshal (ex_publisher 5)
          [Recv (ex_event ''A''), Recv (ex_event ''C''), Expire] = Inr (Some s) \<longrightarrow>
        attempts s = []"
    by (auto simp add: run_eval ex_defs)
  with s have a: "attempts s = []"
    by simp
  from timer_fire [OF s st] a
  have 1: "open_batch s = [\<lparr>Data = [65]\<rparr>, \<lparr>Data = [67]\<rparr>] \<and>
        attempts s' = [[\<lparr>Data = [65]\<rparr>, \<lparr>Data = [67]\<rparr>]]"
    by (simp add: ex_defs)
  have "\<exists>t'. Run ex_accept ex_grow ex_marshal (ex_publisher 5) ([Expire] @ [TimerC]) = Inr (Some t')"
    by (simp add: run_eval ex_defs)
  then obtain t t' where t: "Run ex_accept ex_grow ex_marshal (ex_publisher 5) [Expire] = Inr (Some t)"
    and tt: "step ex_accept ex_grow ex_marshal (ex_publisher 5) TimerC t = Some t'"
    unfolding Run_snoc by blast
  have "Run ex_accept ex_grow ex_marshal (ex_publisher 5) [Expire] = Inr (Some t) \<longrightarrow> attempts t = []"
    by (auto simp add: run_eval ex_defs)
  with t have b: "attempts t = []"
    by simp
  from timer_fire [OF t tt] b
  have 2: "open_batch t = [] \<and> attempts t' = [] \<and> pool t' = pool t \<and>
          resets (out t') = resets (out t) @ [100] \<and>
          timer t' = \<lparr>active = True, duration = 100, C_full = False\<rparr>"
    by (simp add: ex_defs)
  from s st 1 t tt 2 show ?thesis
    by blast
qed

section \<open>Batches handed to a Publish Task\<close>

text \<open>
  Claim C4. From a reachable state the loop takes a step, and anything may follow. If the
  step made a publish attempt (a flush, by size or by time), the variable \<open>messages\<close> is
  the nil slice after it: the buffer for the following events is empty. Every slice
  handed to \<open>c.Publish\<close> has a backing array, which is never the backing array of
  \<open>messages\<close>, neither after the step nor later, and which no later action changes: the
  batch reads the same at any later time. The publish attempts in their order followed by
  the open batch are exactly the messages serialised so far, each once, so no event is in
  two publish attempts.
\<close>

theorem handed_batch_isolated:
  assumes "Run accepted grow marshal c sched = Inr (Some s)"
    and "step accepted grow marshal c a s = Some s'"
    and "exec accepted grow marshal c sched2 s' = Some s''"
  shows "(publish_calls (out s') \<noteq> publish_calls (out s) \<longrightarrow>
            messages s' = nil_slice \<and> open_batch s' = []) \<and>
         (\<forall>sl \<in> set (publish_calls (out s')).
            array sl \<noteq> None \<and> array sl \<noteq> array (messages s') \<and> array sl \<noteq> array (messages s'') \<and>
            (\<forall>b. array sl = Some b \<longrightarrow> mem s'' b = mem s' b) \<and>
            elems (mem s'') sl = elems (mem s') sl) \<and>
         concat (attempts s'') @ open_batch s'' =
           serialized marshal (received (sched @ a # sched2))"
proof -
  have i: "run_inv accepted c s"
    using assms(1) by (rule Run_reach)
  have i': "run_inv accepted c s'"
    using i assms(2) by (rule step_inv)
  have i'': "run_inv accepted c s''"
    using i' assms(3) by (rule exec_inv)
  have r': "Run accepted grow marshal c (sched @ [a]) = Inr (Some s')"
    using assms(1,2) by (auto simp: Run_snoc)
  have r'': "Run accepted grow marshal c ((sched @ [a]) @ sched2) = Inr (Some s'')"
    using r' assms(3) by (rule Run_exec)
  have 1: "publish_calls (out s') \<noteq> publish_calls (out s) \<longrightarrow>
            messages s' = nil_slice \<and> open_batch s' = []"
    using step_calls [OF i assms(2)] by (auto simp: open_batch_def elems_nil)
  have 2: "array sl \<noteq> None \<and> array sl \<noteq> array (messages s') \<and> array sl \<noteq> array (messages s'') \<and>
            (\<forall>b. array sl = Some b \<longrightarrow> mem s'' b = mem s' b) \<and>
            elems (mem s'') sl = elems (mem s') sl"
    if m: "sl \<in> set (publish_calls (out s'))" for sl
  proof -
    note f = exec_frame [OF i' assms(3) m]
    from f have "elems (mem s'') sl = elems (mem s') sl"
      by (simp add: elems_cong)
    with inv_distinct(1,2) [OF i' m] inv_distinct(2) [OF i'', of sl] f show ?thesis
      by simp
  qed
  from Run_order [OF r''] 1 2 show ?thesis
    by simp
qed

text \<open>
  A maximum batch size of two: the second event flushes, the third goes to a new backing
  array.
\<close>

theorem handed_batch_isolated_witness:
  "\<exists>s s' s''.
     Run ex_accept ex_grow ex_marshal (ex_publisher 2) [Recv (ex_event ''A'')] = Inr (Some s) \<and>
     step ex_accept ex_grow ex_marshal (ex_publisher 2) (Recv (ex_event ''C'')) s = Some s' \<and>
     exec ex_accept ex_grow ex_marshal (ex_publisher 2) [Recv (ex_event ''D'')] s' = Some s'' \<and>
     publish_calls (out s') \<noteq> publish_calls (out s) \<and>
     messages s' = nil_slice \<and> open_batch s' = [] \<and>
     (\<forall>sl \<in> set (publish_calls (out s')).
        array sl \<noteq> array (messages s'') \<and> elems (mem s'') sl = elems (mem s') sl) \<and>
     concat (attempts s'') @ open_batch s'' = [\<lparr>Data = [65]\<rparr>, \<lparr>Data = [67]\<rparr>, \<lparr>Data = [68]\<rparr>]"
proof -
  have "\<exists>s''. Run ex_accept ex_grow ex_marshal (ex_publisher 2)
          (([Recv (ex_event ''A'')] @ [Recv (ex_event ''C'')]) @ [Recv (ex_event ''D'')]) = Inr (Some s'')"
    by (simp add: run_eval ex_defs)
  then obtain s' s'' where r': "Run ex_accept ex_grow ex_marshal (ex_publisher 2)
          ([Recv (ex_event ''A'')] @ [Recv (ex_event ''C'')]) = Inr (Some s')"
    and ex: "exec ex_accept ex_grow ex_marshal (ex_publisher 2) [Recv (ex_event ''D'')] s' = Some s''"
    using Run_append [of ex_accept ex_grow ex_marshal "ex_publisher 2"
        "[Recv (ex_event ''A'')] @ [Recv (ex_event ''C'')]" "[Recv (ex_event ''D'')]"]
    by blast
  then obtain s where s: "Run ex_accept ex_grow ex_marshal (ex_publisher 2) [Recv (ex_event ''A'')] = Inr (Some s)"
    and st: "step ex_accept ex_grow ex_marshal (ex_publisher 2) (Recv (ex_event ''C'')) s = Some s'"
    using Run_snoc [of ex_accept ex_grow ex_marshal "ex_publisher 2" "[Recv (ex_event ''A'')]"
        "Recv (ex_event ''C'')"]
    by blast
  have "Run ex_accept ex_grow ex_marshal (ex_publisher 2) [Recv (ex_event ''A'')] = Inr (Some s) \<longrightarrow>
        publish_calls (out s) = []"
    by (auto simp add: run_eval ex_defs)
  with s have c0: "publish_calls (out s) = []"
    by simp
  have "Run ex_accept ex_grow ex_marshal (ex_publisher 2) ([Recv (ex_event ''A'')] @ [Recv (ex_event ''C'')])
          = Inr (Some s') \<longrightarrow> publish_calls (out s') \<noteq> []"
    by (auto simp add: run_eval ex_defs)
  with s st have c1: "publish_calls (out s') \<noteq> []"
    unfolding Run_snoc by blast
  from handed_batch_isolated [OF s st ex] c0 c1
  have "publish_calls (out s') \<noteq> publish_calls (out s) \<and>
     messages s' = nil_slice \<and> open_batch s' = [] \<and>
     (\<forall>sl \<in> set (publish_calls (out s')).
        array sl \<noteq> array (messages s'') \<and> elems (mem s'') sl = elems (mem s') sl) \<and>
     concat (attempts s'') @ open_batch s'' = [\<lparr>Data = [65]\<rparr>, \<lparr>Data = [67]\<rparr>, \<lparr>Data = [68]\<rparr>]"
    by (simp add: ex_defs)
  with s st ex show ?thesis
    by blast
qed

section \<open>The deadline of the flush timer\<close>




text \<open>
  Claim C6. The event branch of the loop, and so a size-triggered flush, leaves the timer
  as it is and resets nothing. No step that makes a publish attempt resets the timer or
  changes its deadline; the closure it offers to the pool holds the flushed slice and
  \<open>PubsubMaxPublishDelay\<close>, as does every closure in the pool. The only reset after a
  flush of a non-empty batch is the one of such a closure when it completes: once, to
  \<open>PubsubMaxPublishDelay\<close>.
\<close>

theorem size_flush_leaves_timer:
  assumes "Run accepted grow marshal c sched = Inr (Some s)"
    and "step accepted grow marshal c a s = Some s'"
  shows "(\<forall>event. a = Recv event \<longrightarrow> timer s' = timer s \<and> resets (out s') = resets (out s)) \<and>
         (publish_calls (out s') \<noteq> publish_calls (out s) \<longrightarrow>
            resets (out s') = resets (out s) \<and>
            active (timer s') = active (timer s) \<and> duration (timer s') = duration (timer s) \<and>
            (\<forall>tk \<in> set (pool s'). task_maxDelay tk = PubsubMaxPublishDelay (config c)) \<and>
            (accepted (length (publish_calls (out s))) \<longrightarrow>
               pool s' = pool s @ [\<lparr>task_messages = last (publish_calls (out s')),
                                     task_maxDelay = PubsubMaxPublishDelay (config c)\<rparr>])) \<and>
         (\<forall>k get. a = TaskDone k get \<longrightarrow>
            resets (out s') = resets (out s) @ [PubsubMaxPublishDelay (config c)] \<and>
            timer s' = \<lparr>active = True, duration = PubsubMaxPublishDelay (config c),
                         C_full = C_full (timer s)\<rparr>)"
proof -
  have i: "run_inv accepted c s"
    using assms(1) by (rule Run_reach)
  then have d: "\<forall>tk \<in> set (pool s). task_maxDelay tk = PubsubMaxPublishDelay (config c)"
    by (simp add: run_inv_def)
  have "(\<forall>event. a = Recv event \<longrightarrow> timer s' = timer s \<and> resets (out s') = resets (out s)) \<and>
         (\<forall>k get. a = TaskDone k get \<longrightarrow>
            resets (out s') = resets (out s) @ [PubsubMaxPublishDelay (config c)] \<and>
            timer s' = \<lparr>active = True, duration = PubsubMaxPublishDelay (config c),
                         C_full = C_full (timer s)\<rparr>)"
    using i assms(2) d
    by (cases rule: step_cases)
      (auto simp: resets_append run_task_def resets_task Reset_def)
  moreover have "\<forall>tk \<in> set (pool s'). task_maxDelay tk = PubsubMaxPublishDelay (config c)"
    using step_inv [OF i assms(2)] by (simp add: run_inv_def)
  ultimately show ?thesis
    using step_calls [OF i assms(2)] by auto
qed

text \<open>
  A size-triggered flush with a maximum batch size of two and a pool that takes the
  closure, the completion of that task, and the same flush with a pool that refuses.
\<close>

theorem size_flush_leaves_timer_witness:
  "(\<exists>s s'.
     Run ex_accept ex_grow ex_marshal (ex_publisher 2) [Recv (ex_event ''A'')] = Inr (Some s) \<and>
     step ex_accept ex_grow ex_marshal (ex_publisher 2) (Recv (ex_event ''C'')) s = Some s' \<and>
     publish_calls (out s') \<noteq> publish_calls (out s) \<and>
     timer s' = timer s \<and> resets (out s') = resets (out s) \<and>
     pool s' = pool s @ [\<lparr>task_messages = last (publish_calls (out s')), task_maxDelay = 100\<rparr>]) \<and>
   (\<exists>s s'.
     Run ex_accept ex_grow ex_marshal (ex_publisher 2) [Recv (ex_event ''A''), Recv (ex_event ''C'')]
       = Inr (Some s) \<and>
     step ex_accept ex_grow ex_marshal (ex_publisher 2) (TaskDone 0 ex_get) s = Some s' \<and>
     resets (out s') = resets (out s) @ [100] \<and>
     timer s' = \<lparr>active = True, duration = 100, C_full = C_full (timer s)\<rparr>) \<and>
   (\<exists>s s'.
     Run ex_refuse ex_grow ex_marshal (ex_publisher 2) [Recv (ex_event ''A'')] = Inr (Some s) \<and>
     step ex_refuse ex_grow ex_marshal (ex_publisher 2) (Recv (ex_event ''C'')) s = Some s' \<and>
     publish_calls (out s') \<noteq> publish_calls (out s) \<and>
     timer s' = timer s \<and> resets (out s') = resets (out s))"
proof -
  have "\<exists>s'. Run ex_accept ex_grow ex_marshal (ex_publisher 2)
          ([Recv (ex_event ''A'')] @ [Recv (ex_event ''C'')]) = Inr (Some s')"
    by (simp add: run_eval ex_defs)
  then obtain s s' where s: "Run ex_accept ex_grow ex_marshal (ex_publisher 2) [Recv (ex_event ''A'')] = Inr (Some s)"
    and st: "step ex_accept ex_grow ex_marshal (ex_publisher 2) (Recv (ex_event ''C'')) s = Some s'"
    unfolding Run_snoc by blast
  have "Run ex_accept ex_grow ex_marshal (ex_publisher 2) [Recv (ex_event ''A'')] = Inr (Some s) \<longrightarrow>
        publish_calls (out s) = []"
    by (auto simp add: run_eval ex_defs)
  with s have c0: "publish_calls (out s) = []"
    by simp
  have "Run ex_accept ex_grow ex_marshal (ex_publisher 2) ([Recv (ex_event ''A'')] @ [Recv (ex_event ''C'')])
          = Inr (Some s') \<longrightarrow> publish_calls (out s') \<noteq> []"
    by (auto simp add: run_eval ex_defs)
  with s st have c1: "publish_calls (out s') \<noteq> []"
    unfolding Run_snoc by blast
  from size_flush_leaves_timer [OF s st] c0 c1
  have 1: "publish_calls (out s') \<noteq> publish_calls (out s) \<and>
     timer s' = timer s \<and> resets (out s') = resets (out s) \<and>
     pool s' = pool s @ [\<lparr>task_messages = last (publish_calls (out s')), task_maxDelay = 100\<rparr>]"
    by (simp add: ex_defs)
  have "\<exists>t'. Run ex_accept ex_grow ex_marshal (ex_publisher 2)
          ([Recv (ex_event ''A''), Recv (ex_event ''C'')] @ [TaskDone 0 ex_get]) = Inr (Some t')"
    by (simp add: run_eval ex_defs)
  then obtain t t' where t: "Run ex_accept ex_grow ex_marshal (ex_publisher 2)
          [Recv (ex_event ''A''), Recv (ex_event ''C'')] = Inr (Some t)"
    and tt: "step ex_accept ex_grow ex_marshal (ex_publisher 2) (TaskDone 0 ex_get) t = Some t'"
    unfolding Run_snoc by blast
  from size_flush_leaves_timer [OF t tt]
  have 2: "resets (out t') = resets (out t) @ [100] \<and>
     timer t' = \<lparr>active = True, duration = 100, C_full = C_full (timer t)\<rparr>"
    by (simp add: ex_defs)
  have "\<exists>u'. Run ex_refuse ex_grow ex_marshal (ex_publisher 2)
          ([Recv (ex_event ''A'')] @ [Recv (ex_event ''C'')]) = Inr (Some u')"
    by (simp add: run_eval ex_defs)
  then obtain u u' where u: "Run ex_refuse ex_grow ex_marshal (ex_publisher 2) [Recv (ex_event ''A'')] = Inr (Some u)"
    and ut: "step ex_refuse ex_grow ex_marshal (ex_publisher 2) (Recv (ex_event ''C'')) u = Some u'"
    unfolding Run_snoc by blast
  have "Run ex_refuse ex_grow ex_marshal (ex_publisher 2) [Recv (ex_event ''A'')] = Inr (Some u) \<longrightarrow>
        publish_calls (out u) = []"
    by (auto simp add: run_eval ex_defs)
  with u have d0: "publish_calls (out u) = []"
    by simp
  have "Run ex_refuse ex_grow ex_marshal (ex_publisher 2) ([Recv (ex_event ''A'')] @ [Recv (ex_event ''C'')])
          = Inr (Some u') \<longrightarrow> publish_calls (out u') \<noteq> []"
    by (auto simp add: run_eval ex_defs)
  with u ut have d1: "publish_calls (out u') \<noteq> []"
    unfolding Run_snoc by blast
  from size_flush_leaves_timer [OF u ut] d0 d1
  have 3: "publish_calls (out u') \<noteq> publish_calls (out u) \<and>
     timer u' = timer u \<and> resets (out u') = resets (out u)"
    by simp
  from s st 1 t tt 2 u ut 3 show ?thesis
    by blast
qed

section \<open>The size of the open batch\<close>

text \<open>
  Claim C7 says that the open batch never has more messages than \<open>PubsubMaxBatch\<close>.
  With \<open>PubsubMaxBatch = 0\<close>, which \<open>make\<close> accepts, the length after an append is never
  equal to it: after two events the open batch has two messages.
\<close>

theorem open_batch_unbounded_counterexample:
  "map_sum id (map_option (len \<circ> messages))
     (Run ex_accept ex_grow ex_marshal (ex_publisher 0) [Recv (ex_event ''A''), Recv (ex_event ''C'')]) =
   Inr (Some 2) \<and>
   PubsubMaxBatch (config (ex_publisher 0)) = 0"
  by (simp add: run_eval ex_defs)

text \<open>
  Claim C7, amended. When \<open>PubsubMaxBatch\<close> is at least one, in every reachable state of
  the Dispatch Loop the open batch has fewer messages than \<open>PubsubMaxBatch\<close>, and inside
  an iteration, after the append and before the test, at most \<open>PubsubMaxBatch\<close>.
\<close>

theorem open_batch_bounded:
  assumes "0 < PubsubMaxBatch (config c)"
    and "Run accepted grow marshal c sched = Inr (Some s)"
  shows "int (length (open_batch s)) < PubsubMaxBatch (config c) \<and>
         int (len (messages s)) < PubsubMaxBatch (config c) \<and>
         (\<forall>x. int (len (fst (append_slice grow (mem s) (next_addr s) (messages s) x)))
                \<le> PubsubMaxBatch (config c))"
proof -
  have i: "run_inv accepted c s"
    using assms(2) by (rule Run_reach)
  then have ok: "slice_ok (mem s) (next_addr s) (messages s)"
    and l: "int (len (messages s)) < PubsubMaxBatch (config c)"
    using assms(1) by (simp_all add: run_inv_def)
  have "len (fst (append_slice grow (mem s) (next_addr s) (messages s) x)) = Suc (len (messages s))"
    for x
    using append_slice_props(3) [OF ok, of grow x]
    by (cases "append_slice grow (mem s) (next_addr s) (messages s) x") simp
  with l length_elems [OF ok] show ?thesis
    by (simp add: open_batch_def)
qed

text \<open>Two events with a maximum batch size of three.\<close>

theorem open_batch_bounded_witness:
  "\<exists>s. Run ex_accept ex_grow ex_marshal (ex_publisher 3) [Recv (ex_event ''A''), Recv (ex_event ''C'')]
          = Inr (Some s) \<and>
       int (length (open_batch s)) < 3 \<and> int (len (messages s)) < 3"
proof -
  have "\<exists>s. Run ex_accept ex_grow ex_marshal (ex_publisher 3) [Recv (ex_event ''A''), Recv (ex_event ''C'')]
          = Inr (Some s)"
    by (simp add: run_eval ex_defs)
  then obtain s where s: "Run ex_accept ex_grow ex_marshal (ex_publisher 3)
      [Recv (ex_event ''A''), Recv (ex_event ''C'')] = Inr (Some s)"
    by blast
  have "0 < PubsubMaxBatch (config (ex_publisher 3))"
    by (simp add: ex_defs)
  from open_batch_bounded [OF this s]
  have "int (length (open_batch s)) < 3 \<and> int (len (messages s)) < 3"
    by (simp add: ex_defs)
  with s show ?thesis
    by blast
qed

section \<open>Events that do not serialise\<close>

text \<open>
  Claim C9. Somewhere in a schedule the loop receives an event that does not serialise.
  That iteration adds one error log line and changes nothing else: the open batch and the
  publish attempts are as before, and the loop goes on with the rest of the schedule from
  that state. At the end the publish attempts and the open batch hold exactly the
  messages of the other events, in their order.
\<close>

theorem marshal_error_isolated:
  assumes "Run accepted grow marshal c (sched1 @ Recv event # sched2) = Inr (Some s)"
    and "marshal event = Inl err"
  shows "\<exists>s1. Run accepted grow marshal c sched1 = Inr (Some s1) \<and>
           step accepted grow marshal c (Recv event) s1 =
             Some (s1\<lparr>out := out s1 @ [Log Error ''Error Marshaling event'' [zapError err]]\<rparr>) \<and>
           open_batch (s1\<lparr>out := out s1 @ [Log Error ''Error Marshaling event'' [zapError err]]\<rparr>)
             = open_batch s1 \<and>
           attempts (s1\<lparr>out := out s1 @ [Log Error ''Error Marshaling event'' [zapError err]]\<rparr>)
             = attempts s1 \<and>
           exec accepted grow marshal c sched2
             (s1\<lparr>out := out s1 @ [Log Error ''Error Marshaling event'' [zapError err]]\<rparr>) = Some s \<and>
           concat (attempts s) @ open_batch s = serialized marshal (received (sched1 @ sched2))"
proof -
  from assms(1) obtain s1 where s1: "Run accepted grow marshal c sched1 = Inr (Some s1)"
    and ex: "exec accepted grow marshal c (Recv event # sched2) s1 = Some s"
    by (auto simp: Run_append)
  let ?s = "s1\<lparr>out := out s1 @ [Log Error ''Error Marshaling event'' [zapError err]]\<rparr>"
  have st: "step accepted grow marshal c (Recv event) s1 = Some ?s"
    using assms(2) by (simp add: on_event_Inl)
  with ex have ex2: "exec accepted grow marshal c sched2 ?s = Some s"
    by simp
  have v: "open_batch ?s = open_batch s1" "attempts ?s = attempts s1"
    by (simp_all add: open_batch_def attempts_def publish_calls_append)
  have "serialized marshal (received (sched1 @ Recv event # sched2)) =
        serialized marshal (received (sched1 @ sched2))"
    using assms(2) by (simp add: received_append serialized_append)
  with Run_order [OF assms(1)] s1 st ex2 v show ?thesis
    by simp
qed

text \<open>
  Events \<open>A\<close>, \<open>B\<close>, \<open>C\<close> with a maximum batch size of two, where \<open>B\<close> does not
  serialise: the one publish attempt has the messages of \<open>A\<close> and \<open>C\<close>.
\<close>

theorem marshal_error_isolated_witness:
  "\<exists>s. Run ex_accept ex_grow ex_marshal (ex_publisher 2)
          [Recv (ex_event ''A''), Recv (ex_event ''B''), Recv (ex_event ''C'')] = Inr (Some s) \<and>
       attempts s = [[\<lparr>Data = [65]\<rparr>, \<lparr>Data = [67]\<rparr>]] \<and> open_batch s = []"
proof -
  have "\<exists>s. Run ex_accept ex_grow ex_marshal (ex_publisher 2)
          ([Recv (ex_event ''A'')] @ Recv (ex_event ''B'') # [Recv (ex_event ''C'')]) = Inr (Some s)"
    by (simp add: run_eval ex_defs)
  then obtain s where s: "Run ex_accept ex_grow ex_marshal (ex_publisher 2)
          ([Recv (ex_event ''A'')] @ Recv (ex_event ''B'') # [Recv (ex_event ''C'')]) = Inr (Some s)"
    by blast
  have m: "ex_marshal (ex_event ''B'') = Inl ''unsupported value''"
    by (simp add: ex_defs)
  from marshal_error_isolated [OF s m]
  have "concat (attempts s) @ open_batch s =
        serialized ex_marshal (received ([Recv (ex_event ''A'')] @ [Recv (ex_event ''C'')]))"
    by blast
  then have c: "concat (attempts s) @ open_batch s = [\<lparr>Data = [65]\<rparr>, \<lparr>Data = [67]\<rparr>]"
    by (simp add: ex_defs)
  have "Run ex_accept ex_grow ex_marshal (ex_publisher 2)
          ([Recv (ex_event ''A'')] @ Recv (ex_event ''B'') # [Recv (ex_event ''C'')]) = Inr (Some s)
        \<longrightarrow> open_batch s = [] \<and> length (attempts s) = 1"
    by (auto simp add: run_eval ex_defs)
  with s have "open_batch s = []" and "length (attempts s) = 1"
    by simp_all
  with c have "attempts s = [[\<lparr>Data = [65]\<rparr>, \<lparr>Data = [67]\<rparr>]] \<and> open_batch s = []"
    by (cases "attempts s") auto
  with s show ?thesis
    by auto
qed

section \<open>Topic provisioning errors\<close>

text \<open>
  Claim C10. When \<open>createTopicIfNotExists\<close> returns an error, \<open>NewPublisher\<close> returns
  that error together with a non-nil pointer to a complete \<open>Publisher\<close>: the pool that
  \<open>NewGoPool\<close> made, the configuration, a new wait group, the id, and as topic whatever
  handle came with the error (nil when the client could not be made).
\<close>

theorem NewPublisher_error:
  assumes "createTopicIfNotExists NewClient Exists CreateTopic (ProjectID cfg) (Topic cfg) =
             ((tp, Some e), logs)"
  shows "fst (NewPublisher NewGoPool NewClient Exists CreateTopic cfg ident) =
           (Some \<lparr>gp = NewGoPool (MaxPubSubGoroutinesAmount cfg)
                         (MaxPubSubGoroutineIdleDuration cfg),
                  config = cfg, topic = tp, wg = 0, id_p = ident\<rparr>,
            Some e)"
  using assms by (simp add: NewPublisher_def Let_def)

text \<open>The client cannot be made: the topic handle is nil, the struct is returned.\<close>

theorem NewPublisher_error_witness:
  "fst (NewPublisher (\<lambda>n d. ()) (\<lambda>p. Inl ''no credentials'' :: error + unit)
          (\<lambda>tp. (False, None)) (\<lambda>cl name. (None, None)) (ex_config 3) 1) =
     (Some \<lparr>gp = (), config = ex_config 3, topic = None, wg = 0, id_p = 1\<rparr>,
      Some ''no credentials'')"
  using NewPublisher_error [of "\<lambda>p. Inl ''no credentials'' :: error + unit"
      "\<lambda>tp. (False, None)" "\<lambda>cl name. (None, None)" "ex_config 3" None "''no credentials''"
      "[Log Error ''Pub/Sub client creation error'' [zapError ''no credentials'']]"
      "\<lambda>n d. ()" 1]
  by (simp add: createTopicIfNotExists_def)

end
